theory Spec2Isabelle
  imports Main "HOL-Library.AList"
begin

section \<open>Data model of the rate limiter\<close>

text \<open>
  Times are milliseconds since the epoch, as \<open>Date.now()\<close> returns them; a \<open>Date\<close> is the
  integer it wraps. Numbers of the configuration (\<open>limit\<close>, \<open>windowMs\<close>) are integers.
  A configuration property is either absent (\<open>None\<close>) or carries a value.
\<close>

record Request =
  ip :: "string option"
  remoteAddress :: "string option"
  path :: string
  http_method :: string

record RateLimitInfo =
  limit :: int
  remaining :: int
  resetAt :: int
  isLimited :: bool

datatype HeaderValue = HNum int | HStr string

record RateLimitBody =
  error :: string
  body_message :: string
  retryAfter :: int

record Response =
  statusCode :: nat
  res_headers :: "(string \<times> HeaderValue) list"
  body :: "RateLimitBody option"

record AuditMetadata =
  meta_method :: string
  meta_limit :: int
  meta_retryAfter :: int

record AuditEntry =
  audit_id :: string
  audit_timestamp :: int
  action :: string
  actor :: string
  resource :: string
  success :: bool
  metadata :: AuditMetadata
  ipAddress :: "string option"

text \<open>
  \<open>RateLimitConfig\<close>: every property is optional. The audit sink is an effect outside the
  program; the configuration records whether one is installed, and the middleware's outcome
  lists the entries handed to it.
\<close>

record RateLimitConfig =
  limit_opt :: "int option"
  windowMs_opt :: "int option"
  keyGenerator_opt :: "(Request \<Rightarrow> string) option"
  skip_opt :: "(Request \<Rightarrow> bool) option"
  onLimitReached_opt :: "(Request \<Rightarrow> Response \<Rightarrow> RateLimitInfo \<Rightarrow> Response) option"
  auditLog_opt :: bool
  headers_opt :: "bool option"
  message_opt :: "string option"

text \<open>
  The type of \<open>this.config\<close> and of \<open>mergedConfig\<close>: the five defaulted properties are
  required, \<open>skip\<close>, \<open>onLimitReached\<close> and \<open>auditLog\<close> stay optional.
\<close>

record ResolvedConfig =
  limit_cfg :: int
  windowMs :: int
  keyGenerator :: "Request \<Rightarrow> string"
  headers :: bool
  message :: string
  skip :: "(Request \<Rightarrow> bool) option"
  onLimitReached :: "(Request \<Rightarrow> Response \<Rightarrow> RateLimitInfo \<Rightarrow> Response) option"
  auditLog :: bool

record RateLimitRecord =
  timestamps :: "int list"
  lastAccess :: int

text \<open>
  The store is a JavaScript \<open>Map\<close>: an association list in insertion order with one entry
  per key. \<open>Map.set\<close> is \<open>AList.update\<close> (replace in place, or append), \<open>Map.delete\<close> is
  \<open>AList.delete\<close>, \<open>Map.get\<close> is \<open>map_of\<close>.
\<close>

type_synonym Store = "(string \<times> RateLimitRecord) list"

text \<open>
  The class \<open>RateLimiter\<close>. \<open>cleanupInterval\<close> holds the period of the registered
  \<open>setInterval\<close> timer, or \<open>None\<close> when there is none.
\<close>

record RateLimiter =
  config :: ResolvedConfig
  store :: Store
  cleanupInterval :: "int option"

datatype js_error = TypeError

section \<open>Configuration\<close>

text \<open>\<open>a || b\<close> on strings that may be undefined: the empty string is falsy as well.\<close>

definition or_else :: "string option \<Rightarrow> string option \<Rightarrow> string option" where
  "or_else a b = (case a of Some s \<Rightarrow> (if s \<noteq> [] then Some s else b) | None \<Rightarrow> b)"

definition default_keyGenerator :: "Request \<Rightarrow> string" where
  "default_keyGenerator req =
     (case or_else (or_else (ip req) (remoteAddress req)) (Some ''unknown'') of
        Some s \<Rightarrow> s | None \<Rightarrow> ''unknown'')"

definition DEFAULT_RATE_LIMIT_CONFIG :: ResolvedConfig where
  "DEFAULT_RATE_LIMIT_CONFIG =
     \<lparr> limit_cfg = 60,
       windowMs = 60 * 1000,
       keyGenerator = default_keyGenerator,
       headers = True,
       message = ''Too many requests, please try again later.'',
       skip = None,
       onLimitReached = None,
       auditLog = False \<rparr>"

text \<open>The object spread \<open>{...defaults, ...config}\<close>: a property present in \<open>config\<close> wins.\<close>

definition spread_defaults :: "ResolvedConfig \<Rightarrow> RateLimitConfig \<Rightarrow> ResolvedConfig" where
  "spread_defaults d c =
     \<lparr> limit_cfg = (case limit_opt c of Some v \<Rightarrow> v | None \<Rightarrow> limit_cfg d),
       windowMs = (case windowMs_opt c of Some v \<Rightarrow> v | None \<Rightarrow> windowMs d),
       keyGenerator = (case keyGenerator_opt c of Some v \<Rightarrow> v | None \<Rightarrow> keyGenerator d),
       headers = (case headers_opt c of Some v \<Rightarrow> v | None \<Rightarrow> headers d),
       message = (case message_opt c of Some v \<Rightarrow> v | None \<Rightarrow> message d),
       skip = (case skip_opt c of Some v \<Rightarrow> Some v | None \<Rightarrow> skip d),
       onLimitReached = (case onLimitReached_opt c of Some v \<Rightarrow> Some v | None \<Rightarrow> onLimitReached d),
       auditLog = (auditLog_opt c \<or> auditLog d) \<rparr>"

text \<open>The object spread \<open>{...a, ...b}\<close> of two partial configurations.\<close>

definition spread :: "RateLimitConfig \<Rightarrow> RateLimitConfig \<Rightarrow> RateLimitConfig" where
  "spread a b =
     \<lparr> limit_opt = (case limit_opt b of Some v \<Rightarrow> Some v | None \<Rightarrow> limit_opt a),
       windowMs_opt = (case windowMs_opt b of Some v \<Rightarrow> Some v | None \<Rightarrow> windowMs_opt a),
       keyGenerator_opt = (case keyGenerator_opt b of Some v \<Rightarrow> Some v | None \<Rightarrow> keyGenerator_opt a),
       skip_opt = (case skip_opt b of Some v \<Rightarrow> Some v | None \<Rightarrow> skip_opt a),
       onLimitReached_opt =
         (case onLimitReached_opt b of Some v \<Rightarrow> Some v | None \<Rightarrow> onLimitReached_opt a),
       auditLog_opt = (auditLog_opt b \<or> auditLog_opt a),
       headers_opt = (case headers_opt b of Some v \<Rightarrow> Some v | None \<Rightarrow> headers_opt a),
       message_opt = (case message_opt b of Some v \<Rightarrow> Some v | None \<Rightarrow> message_opt a) \<rparr>"

definition empty_config :: RateLimitConfig where
  "empty_config =
     \<lparr> limit_opt = None, windowMs_opt = None, keyGenerator_opt = None, skip_opt = None,
       onLimitReached_opt = None, auditLog_opt = False, headers_opt = None, message_opt = None \<rparr>"

section \<open>The class RateLimiter\<close>

text \<open>
  The constructor merges the defaults with the given configuration and calls
  \<open>startCleanup\<close>, which registers the sweep with \<open>setInterval\<close> every \<open>60 * 1000\<close> ms.
\<close>

definition startCleanup :: "RateLimiter \<Rightarrow> RateLimiter" where
  "startCleanup lim = lim\<lparr>cleanupInterval := Some (60 * 1000)\<rparr>"

definition new_RateLimiter :: "RateLimitConfig \<Rightarrow> RateLimiter" where
  "new_RateLimiter cfg =
     startCleanup \<lparr> config = spread_defaults DEFAULT_RATE_LIMIT_CONFIG cfg,
                    store = [],
                    cleanupInterval = None \<rparr>"

definition stop :: "RateLimiter \<Rightarrow> RateLimiter" where
  "stop lim = (case cleanupInterval lim of
                 Some _ \<Rightarrow> lim\<lparr>cleanupInterval := None\<rparr>
               | None \<Rightarrow> lim)"

text \<open>
  \<open>cleanup\<close>: the loop runs over the entries of the store and deletes the current key when
  its record is older than twice the window. \<open>now\<close> is the reading of \<open>Date.now()\<close>.
\<close>

definition cleanup :: "int \<Rightarrow> RateLimiter \<Rightarrow> RateLimiter" where
  "cleanup now lim =
     (let expireTime = windowMs (config lim) * 2
      in lim\<lparr>store :=
               fold (\<lambda>(key, rec) st.
                       if now - lastAccess rec > expireTime then AList.delete key st else st)
                    (store lim) (store lim)\<rparr>)"

text \<open>
  \<open>check\<close>: \<open>now\<close> is the reading of \<open>Date.now()\<close>. The test \<open>oldestTimestamp ? ... : ...\<close>
  is a truthiness test on a number: it takes the second branch when the array is empty
  (\<open>undefined\<close>) and also when the oldest timestamp is \<open>0\<close>.
\<close>

definition check :: "int \<Rightarrow> string \<Rightarrow> RateLimiter \<Rightarrow> RateLimitInfo \<times> RateLimiter" where
  "check now key lim =
     (let windowStart = now - windowMs (config lim);
          (rec0, store1) =
            (case map_of (store lim) key of
               Some r \<Rightarrow> (r, store lim)
             | None \<Rightarrow> (let r = \<lparr>timestamps = [], lastAccess = now\<rparr>
                        in (r, AList.update key r (store lim))));
          rec1 = rec0\<lparr>timestamps := filter (\<lambda>ts. ts > windowStart) (timestamps rec0),
                      lastAccess := now\<rparr>;
          store2 = AList.update key rec1 store1;
          remaining' = max 0 (limit_cfg (config lim) - int (length (timestamps rec1)));
          isLimited' = (remaining' = 0);
          resetAt' = (case timestamps rec1 of
                        [] \<Rightarrow> now + windowMs (config lim)
                      | oldestTimestamp # _ \<Rightarrow>
                          if oldestTimestamp \<noteq> 0 then oldestTimestamp + windowMs (config lim)
                          else now + windowMs (config lim))
      in (\<lparr> limit = limit_cfg (config lim),
            remaining = remaining',
            resetAt = resetAt',
            isLimited = isLimited' \<rparr>,
          lim\<lparr>store := store2\<rparr>))"

text \<open>
  \<open>hit\<close> reads the clock (\<open>now\<close>) and then calls \<open>check\<close>, which reads it again
  (\<open>cnow\<close>). \<open>this.store.get(key)!\<close> is dereferenced: a missing record is a TypeError.
\<close>

definition hit :: "int \<Rightarrow> int \<Rightarrow> string \<Rightarrow> RateLimiter \<Rightarrow> js_error + (RateLimitInfo \<times> RateLimiter)" where
  "hit now cnow key lim =
     (let (info, lim1) = check cnow key lim
      in if \<not> isLimited info then
           (case map_of (store lim1) key of
              None \<Rightarrow> Inl TypeError
            | Some rec \<Rightarrow>
                Inr (info\<lparr>remaining := max 0 (remaining info - 1)\<rparr>,
                     lim1\<lparr>store := AList.update key (rec\<lparr>timestamps := timestamps rec @ [now]\<rparr>)
                                                 (store lim1)\<rparr>))
         else Inr (info, lim1))"

definition reset :: "string \<Rightarrow> RateLimiter \<Rightarrow> RateLimiter" where
  "reset key lim = lim\<lparr>store := AList.delete key (store lim)\<rparr>"

definition resetAll :: "RateLimiter \<Rightarrow> RateLimiter" where
  "resetAll lim = lim\<lparr>store := []\<rparr>"

definition size_of :: "RateLimiter \<Rightarrow> nat" where
  "size_of lim = length (store lim)"

definition getInfo :: "int \<Rightarrow> string \<Rightarrow> RateLimiter \<Rightarrow> RateLimitInfo \<times> RateLimiter" where
  "getInfo now key lim = check now key lim"

section \<open>The middleware\<close>

text \<open>
  What a call of the middleware reads from its environment: the clock in \<open>hit\<close>, the clock
  in \<open>check\<close>, the clock for \<open>retryAfter\<close>, and \<open>crypto.randomUUID()\<close> and
  \<open>new Date()\<close> for the audit entry.
\<close>

record Env =
  hit_now :: int
  check_now :: int
  retry_now :: int
  audit_uuid :: string
  audit_now :: int

text \<open>
  The closure returned by \<open>createRateLimitMiddleware\<close>: its limiter, \<open>mergedConfig\<close> and
  the \<open>config\<close> it was given.
\<close>

record Middleware =
  limiter :: RateLimiter
  mergedConfig :: ResolvedConfig
  user_config :: RateLimitConfig

text \<open>
  What one call of the middleware does: the response as it leaves the call, whether
  \<open>next()\<close> was called, and the entries handed to the audit sink.
\<close>

record Outcome =
  out_res :: Response
  next_called :: bool
  audited :: "AuditEntry list"

definition setHeader :: "string \<Rightarrow> HeaderValue \<Rightarrow> Response \<Rightarrow> Response" where
  "setHeader name v res = res\<lparr>res_headers := AList.update name v (res_headers res)\<rparr>"

text \<open>\<open>Math.ceil(ms / 1000)\<close> on an integer number of milliseconds.\<close>

definition ceil_seconds :: "int \<Rightarrow> int" where
  "ceil_seconds ms = - ((- ms) div 1000)"

definition createRateLimitMiddleware :: "RateLimitConfig \<Rightarrow> Middleware" where
  "createRateLimitMiddleware cfg =
     \<lparr> limiter = new_RateLimiter cfg,
       mergedConfig = spread_defaults DEFAULT_RATE_LIMIT_CONFIG cfg,
       user_config = cfg \<rparr>"

definition middleware ::
  "Env \<Rightarrow> Request \<Rightarrow> Response \<Rightarrow> Middleware \<Rightarrow> js_error + (Outcome \<times> Middleware)" where
  "middleware env req res mw =
     (if (case skip_opt (user_config mw) of Some f \<Rightarrow> f req | None \<Rightarrow> False)
      then Inr (\<lparr>out_res = res, next_called = True, audited = []\<rparr>, mw)
      else
        let key = keyGenerator (mergedConfig mw) req
        in case hit (hit_now env) (check_now env) key (limiter mw) of
             Inl e \<Rightarrow> Inl e
           | Inr (info, lim') \<Rightarrow>
               let res1 =
                     (if headers (mergedConfig mw)
                      then setHeader ''X-RateLimit-Reset'' (HNum (ceil_seconds (resetAt info)))
                             (setHeader ''X-RateLimit-Remaining'' (HNum (remaining info))
                               (setHeader ''X-RateLimit-Limit'' (HNum (limit info)) res))
                      else res)
               in if isLimited info then
                    let retryAfter' = ceil_seconds (resetAt info - retry_now env);
                        res2 = setHeader ''Retry-After'' (HNum retryAfter') res1;
                        entries =
                          (if auditLog_opt (user_config mw)
                           then [\<lparr> audit_id = audit_uuid env,
                                   audit_timestamp = audit_now env,
                                   action = ''rate_limit.exceeded'',
                                   actor = key,
                                   resource = path req,
                                   success = False,
                                   metadata = \<lparr> meta_method = http_method req,
                                                meta_limit = limit info,
                                                meta_retryAfter = retryAfter' \<rparr>,
                                   ipAddress = ip req \<rparr>]
                           else [])
                    in case onLimitReached_opt (user_config mw) of
                         Some handler \<Rightarrow>
                           Inr (\<lparr>out_res = handler req res2 info, next_called = False,
                                 audited = entries\<rparr>,
                                mw\<lparr>limiter := lim'\<rparr>)
                       | None \<Rightarrow>
                           Inr (\<lparr>out_res = res2\<lparr>statusCode := 429,
                                                body := Some \<lparr> error = ''RATE_LIMIT_EXCEEDED'',
                                                              body_message = message (mergedConfig mw),
                                                              retryAfter = retryAfter' \<rparr>\<rparr>,
                                 next_called = False, audited = entries\<rparr>,
                                mw\<lparr>limiter := lim'\<rparr>)
                  else Inr (\<lparr>out_res = res1, next_called = True, audited = []\<rparr>,
                            mw\<lparr>limiter := lim'\<rparr>))"

text \<open>A sequence of requests through one middleware, each with its environment and response object.\<close>

fun serve :: "(Env \<times> Request \<times> Response) list \<Rightarrow> Middleware \<Rightarrow> js_error + (Outcome list \<times> Middleware)" where
  "serve [] mw = Inr ([], mw)"
| "serve ((env, req, res) # rest) mw =
     (case middleware env req res mw of
        Inl e \<Rightarrow> Inl e
      | Inr (out, mw') \<Rightarrow>
          (case serve rest mw' of Inl e \<Rightarrow> Inl e | Inr (outs, mw'') \<Rightarrow> Inr (out # outs, mw'')))"

text \<open>\<open>RATE_LIMIT_PRESETS\<close> and \<open>createRateLimitFromPreset\<close>.\<close>

datatype preset = Strict | Standard | Relaxed | Api | Webhook | Auth

fun RATE_LIMIT_PRESETS :: "preset \<Rightarrow> RateLimitConfig" where
  "RATE_LIMIT_PRESETS Strict = empty_config\<lparr>limit_opt := Some 30, windowMs_opt := Some (60 * 1000)\<rparr>"
| "RATE_LIMIT_PRESETS Standard = empty_config\<lparr>limit_opt := Some 60, windowMs_opt := Some (60 * 1000)\<rparr>"
| "RATE_LIMIT_PRESETS Relaxed = empty_config\<lparr>limit_opt := Some 120, windowMs_opt := Some (60 * 1000)\<rparr>"
| "RATE_LIMIT_PRESETS Api = empty_config\<lparr>limit_opt := Some 1000, windowMs_opt := Some (60 * 60 * 1000)\<rparr>"
| "RATE_LIMIT_PRESETS Webhook = empty_config\<lparr>limit_opt := Some 100, windowMs_opt := Some (60 * 1000)\<rparr>"
| "RATE_LIMIT_PRESETS Auth = empty_config\<lparr>limit_opt := Some 10, windowMs_opt := Some (60 * 1000)\<rparr>"

definition createRateLimitFromPreset :: "preset \<Rightarrow> RateLimitConfig \<Rightarrow> Middleware" where
  "createRateLimitFromPreset p overrides =
     createRateLimitMiddleware (spread (RATE_LIMIT_PRESETS p) overrides)"

section \<open>The presets as the specification words them\<close>

text \<open>
  The specification's side of the presets: the configuration object that passes a limit and
  a window literally, and the pair each preset name stands for.
\<close>

definition literal_config :: "int \<Rightarrow> int \<Rightarrow> RateLimitConfig" where
  "literal_config l w = empty_config\<lparr>limit_opt := Some l, windowMs_opt := Some w\<rparr>"

fun preset_literal :: "preset \<Rightarrow> int \<times> int" where
  "preset_literal Strict = (30, 60000)"
| "preset_literal Standard = (60, 60000)"
| "preset_literal Relaxed = (120, 60000)"
| "preset_literal Api = (1000, 3600000)"
| "preset_literal Webhook = (100, 60000)"
| "preset_literal Auth = (10, 60000)"

section \<open>Traces of calls\<close>

text \<open>
  A call on a limiter together with the clock readings it makes: \<open>check\<close> and \<open>getInfo\<close>
  read the clock once, \<open>hit\<close> reads it twice (its own reading, then the one of \<open>check\<close>).
\<close>

datatype call =
    Check string int
  | GetInfo string int
  | Hit string int int
  | Reset string

fun call_key :: "call \<Rightarrow> string" where
  "call_key (Check key now) = key"
| "call_key (GetInfo key now) = key"
| "call_key (Hit key now cnow) = key"
| "call_key (Reset key) = key"

text \<open>The last clock reading of a call (none for \<open>reset\<close>).\<close>

fun call_time :: "call \<Rightarrow> int option" where
  "call_time (Check key now) = Some now"
| "call_time (GetInfo key now) = Some now"
| "call_time (Hit key now cnow) = Some cnow"
| "call_time (Reset key) = None"

fun apply_call :: "call \<Rightarrow> RateLimiter \<Rightarrow> js_error + (RateLimitInfo option \<times> RateLimiter)" where
  "apply_call (Check key now) lim = (let (i, l) = check now key lim in Inr (Some i, l))"
| "apply_call (GetInfo key now) lim = (let (i, l) = getInfo now key lim in Inr (Some i, l))"
| "apply_call (Hit key now cnow) lim =
     (case hit now cnow key lim of Inl e \<Rightarrow> Inl e | Inr (i, l) \<Rightarrow> Inr (Some i, l))"
| "apply_call (Reset key) lim = Inr (None, reset key lim)"

fun run_calls :: "call list \<Rightarrow> RateLimiter \<Rightarrow> js_error + (RateLimitInfo option list \<times> RateLimiter)" where
  "run_calls [] lim = Inr ([], lim)"
| "run_calls (c # cs) lim =
     (case apply_call c lim of
        Inl e \<Rightarrow> Inl e
      | Inr (i, l) \<Rightarrow>
          (case run_calls cs l of Inl e \<Rightarrow> Inl e | Inr (is, l') \<Rightarrow> Inr (i # is, l')))"

text \<open>The infos a trace returns, and the admission decisions among them.\<close>

definition outcomes :: "call list \<Rightarrow> RateLimiter \<Rightarrow> js_error + RateLimitInfo option list" where
  "outcomes cs lim = map_sum id fst (run_calls cs lim)"

definition decisions :: "call list \<Rightarrow> RateLimiter \<Rightarrow> js_error + bool option list" where
  "decisions cs lim = map_sum id (map (map_option isLimited)) (outcomes cs lim)"

text \<open>
  Successive \<open>hit\<close>s on one key, each with its two clock readings, and all the readings
  they make.
\<close>

definition hits_on :: "string \<Rightarrow> (int \<times> int) list \<Rightarrow> call list" where
  "hits_on key rs = map (\<lambda>(now, cnow). Hit key now cnow) rs"

definition readings :: "(int \<times> int) list \<Rightarrow> int list" where
  "readings rs = concat (map (\<lambda>(now, cnow). [now, cnow]) rs)"

section \<open>Views of the state and invariants\<close>

text \<open>The timestamps recorded for a key (none without a record), and those inside the window at \<open>now\<close>.\<close>

definition timestamps_of :: "Store \<Rightarrow> string \<Rightarrow> int list" where
  "timestamps_of s key = (case map_of s key of Some r \<Rightarrow> timestamps r | None \<Rightarrow> [])"

definition in_window :: "ResolvedConfig \<Rightarrow> int \<Rightarrow> int list \<Rightarrow> int list" where
  "in_window cfg now xs = filter (\<lambda>ts. ts > now - windowMs cfg) xs"

text \<open>The info that \<open>check\<close> computes at \<open>now\<close> from the timestamps left after pruning.\<close>

definition info_of :: "ResolvedConfig \<Rightarrow> int \<Rightarrow> int list \<Rightarrow> RateLimitInfo" where
  "info_of cfg now xs =
     \<lparr> limit = limit_cfg cfg,
       remaining = max 0 (limit_cfg cfg - int (length xs)),
       resetAt = (case xs of
                    [] \<Rightarrow> now + windowMs cfg
                  | t # _ \<Rightarrow> if t \<noteq> 0 then t + windowMs cfg else now + windowMs cfg),
       isLimited = (max 0 (limit_cfg cfg - int (length xs)) = 0) \<rparr>"

text \<open>
  Invariants of the store: one entry per key, as in a \<open>Map\<close>; no record with more
  timestamps than the limit; no timestamp after its record's \<open>lastAccess\<close>; no
  \<open>lastAccess\<close> after the instant \<open>t\<close>.
\<close>

definition keys_distinct :: "RateLimiter \<Rightarrow> bool" where
  "keys_distinct lim = distinct (map fst (store lim))"

definition within_limit :: "RateLimiter \<Rightarrow> bool" where
  "within_limit lim =
     list_all (\<lambda>(k, r). int (length (timestamps r)) \<le> max 0 (limit_cfg (config lim))) (store lim)"

definition stamps_le_access :: "RateLimiter \<Rightarrow> bool" where
  "stamps_le_access lim =
     list_all (\<lambda>(k, r). list_all (\<lambda>t. t \<le> lastAccess r) (timestamps r)) (store lim)"

definition accessed_by :: "int \<Rightarrow> RateLimiter \<Rightarrow> bool" where
  "accessed_by t lim = list_all (\<lambda>(k, r). lastAccess r \<le> t) (store lim)"

text \<open>
  \<open>reachable t lim\<close>: the limiter state \<open>lim\<close> is built by the constructor and changed by
  the methods of the class only, under a clock that does not run backwards and has not
  passed \<open>t\<close> yet.
\<close>

inductive reachable :: "int \<Rightarrow> RateLimiter \<Rightarrow> bool" where
  r_new: "reachable t (new_RateLimiter cfg)"
| r_check: "reachable t lim \<Longrightarrow> t \<le> now \<Longrightarrow> reachable now (snd (check now key lim))"
| r_hit: "reachable t lim \<Longrightarrow> t \<le> now \<Longrightarrow> now \<le> cnow \<Longrightarrow>
          hit now cnow key lim = Inr (info, lim') \<Longrightarrow> reachable cnow lim'"
| r_reset: "reachable t lim \<Longrightarrow> reachable t (reset key lim)"
| r_resetAll: "reachable t lim \<Longrightarrow> reachable t (resetAll lim)"
| r_cleanup: "reachable t lim \<Longrightarrow> t \<le> now \<Longrightarrow> reachable now (cleanup now lim)"
| r_stop: "reachable t lim \<Longrightarrow> reachable t (stop lim)"

definition invariant :: "int \<Rightarrow> RateLimiter \<Rightarrow> bool" where
  "invariant t lim \<longleftrightarrow>
     keys_distinct lim \<and> within_limit lim \<and> stamps_le_access lim \<and> accessed_by t lim"

text \<open>
  A call that reads the clock reads it at \<open>n\<close> or later; two stores that show the same
  timestamps in every window from \<open>n\<close> on.
\<close>

definition not_before :: "int \<Rightarrow> call \<Rightarrow> bool" where
  "not_before n c = (case call_time c of Some t \<Rightarrow> n \<le> t | None \<Rightarrow> True)"

definition window_equiv :: "ResolvedConfig \<Rightarrow> int \<Rightarrow> Store \<Rightarrow> Store \<Rightarrow> bool" where
  "window_equiv cfg n s1 s2 \<longleftrightarrow>
     (\<forall>k t. n \<le> t \<longrightarrow>
        in_window cfg t (timestamps_of s1 k) = in_window cfg t (timestamps_of s2 k))"

section \<open>The sliding window as the specification words it\<close>

text \<open>
  The sliding window as the specification words it, on a log that forgets nothing: a hit
  whose check reads the clock at \<open>cnow\<close> is limited exactly when at least \<open>L\<close> of the
  key's admitted hits were recorded within the \<open>W\<close> milliseconds before \<open>cnow\<close>; an admitted
  hit is recorded at its own reading and reports the allowance left after it.
  \<open>sliding_log\<close> gives each hit's decision and remaining count, \<open>admitted_log\<close> the
  admitted readings.
\<close>

fun sliding_log :: "int \<Rightarrow> int \<Rightarrow> int list \<Rightarrow> (int \<times> int) list \<Rightarrow> (bool \<times> int) list" where
  "sliding_log L W adm [] = []"
| "sliding_log L W adm ((now, cnow) # rs) =
     (let count = int (length (filter (\<lambda>t. cnow - W < t) adm))
      in if L \<le> count then (True, 0) # sliding_log L W adm rs
         else (False, L - count - 1) # sliding_log L W (adm @ [now]) rs)"

fun admitted_log :: "int \<Rightarrow> int \<Rightarrow> int list \<Rightarrow> (int \<times> int) list \<Rightarrow> int list" where
  "admitted_log L W adm [] = adm"
| "admitted_log L W adm ((now, cnow) # rs) =
     admitted_log L W
       (if L \<le> int (length (filter (\<lambda>t. cnow - W < t) adm)) then adm else adm @ [now]) rs"

text \<open>The decision and the remaining count of each info a trace returns.\<close>

definition verdicts :: "call list \<Rightarrow> RateLimiter \<Rightarrow> js_error + (bool \<times> int) option list" where
  "verdicts cs lim =
     map_sum id (map (map_option (\<lambda>i. (isLimited i, remaining i)))) (outcomes cs lim)"

section \<open>Fixtures\<close>

text \<open>The configurations of the repository's test fixtures (\<open>RATE_LIMIT_CONFIGS\<close>).\<close>

definition testStrict :: RateLimitConfig where
  "testStrict = empty_config\<lparr>limit_opt := Some 2, windowMs_opt := Some 100\<rparr>"

definition testSingle :: RateLimitConfig where
  "testSingle = empty_config\<lparr>limit_opt := Some 1, windowMs_opt := Some 100\<rparr>"

text \<open>A limiter of the \<open>testStrict\<close> configuration whose key \<open>a\<close> has used its two slots.\<close>

definition limiter_at_limit :: RateLimiter where
  "limiter_at_limit = (new_RateLimiter testStrict)\<lparr>store := [(''a'', \<lparr>timestamps = [10, 20], lastAccess = 20\<rparr>)]\<rparr>"

text \<open>A limiter whose limit is 0.\<close>

definition limiter_zero :: RateLimiter where
  "limiter_zero = new_RateLimiter (empty_config\<lparr>limit_opt := Some 0, windowMs_opt := Some 100\<rparr>)"

text \<open>A limiter of the \<open>testStrict\<close> configuration with three tracked keys.\<close>

definition limiter_three_keys :: RateLimiter where
  "limiter_three_keys =
     (new_RateLimiter testStrict)
       \<lparr>store := [(''a'', \<lparr>timestamps = [0], lastAccess = 0\<rparr>),
                  (''b'', \<lparr>timestamps = [40, 50], lastAccess = 50\<rparr>),
                  (''c'', \<lparr>timestamps = [150], lastAccess = 150\<rparr>)]\<rparr>"

text \<open>Fixtures for requests: a fresh response, a request of the test client, an instant.\<close>

definition empty_response :: Response where
  "empty_response = \<lparr>statusCode = 200, res_headers = [], body = None\<rparr>"

definition test_request :: "string \<Rightarrow> Request" where
  "test_request p = \<lparr>ip = Some ''192.168.1.100'', remoteAddress = None, path = p, http_method = ''GET''\<rparr>"

definition at_time :: "int \<Rightarrow> Env" where
  "at_time t = \<lparr>hit_now = t, check_now = t, retry_now = t, audit_uuid = ''uuid'', audit_now = t\<rparr>"

text \<open>A middleware of the \<open>testSingle\<close> configuration whose client has used its one slot.\<close>

definition middleware_used :: Middleware where
  "middleware_used =
     (createRateLimitMiddleware testSingle)
       \<lparr>limiter := (new_RateLimiter testSingle)
          \<lparr>store := [(''192.168.1.100'', \<lparr>timestamps = [5], lastAccess = 5\<rparr>)]\<rparr>\<rparr>"

section \<open>Basic facts\<close>

lemma record_upd_eq [simp]:
  "(r::RateLimitRecord)\<lparr>timestamps := xs, lastAccess := t\<rparr> = \<lparr>timestamps = xs, lastAccess = t\<rparr>"
  by (cases r) simp

lemma check_eq:
  "check now key lim =
     (info_of (config lim) now (in_window (config lim) now (timestamps_of (store lim) key)),
      lim\<lparr>store := AList.update key
                     \<lparr>timestamps = in_window (config lim) now (timestamps_of (store lim) key),
                      lastAccess = now\<rparr> (store lim)\<rparr>)"
  by (cases "map_of (store lim) key")
     (simp_all add: check_def timestamps_of_def info_of_def in_window_def Let_def)

lemma hit_eq:
  "hit now cnow key lim =
     (let xs = in_window (config lim) cnow (timestamps_of (store lim) key);
          info = info_of (config lim) cnow xs
      in if isLimited info
         then Inr (info, lim\<lparr>store := AList.update key \<lparr>timestamps = xs, lastAccess = cnow\<rparr> (store lim)\<rparr>)
         else Inr (info\<lparr>remaining := max 0 (remaining info - 1)\<rparr>,
                   lim\<lparr>store := AList.update key \<lparr>timestamps = xs @ [now], lastAccess = cnow\<rparr> (store lim)\<rparr>))"
  by (simp add: hit_def check_eq Let_def update_conv')

lemma timestamps_of_update:
  "timestamps_of (AList.update key r s) k = (if k = key then timestamps r else timestamps_of s k)"
  by (simp add: timestamps_of_def update_conv')

lemma set_update_subset: "set (AList.update k v al) \<subseteq> insert (k, v) (set al)"
  by (induction al) auto

lemma list_all_update:
  "list_all P al \<Longrightarrow> P (k, v) \<Longrightarrow> list_all P (AList.update k v al)"
  using set_update_subset [of k v al] by (auto simp: list_all_iff)

lemma list_all_delete: "list_all P al \<Longrightarrow> list_all P (AList.delete k al)"
  by (auto simp: list_all_iff AList.delete_eq)

lemma map_of_list_all: "list_all P al \<Longrightarrow> map_of al k = Some r \<Longrightarrow> P (k, r)"
  by (auto simp: list_all_iff dest: map_of_SomeD)

text \<open>The sweep deletes every key that has an expired entry; with one entry per key it is a filter.\<close>

lemma cleanup_fold_filter:
  "fold (\<lambda>(key, rec) st. if E rec then AList.delete key st else st) ys st =
   filter (\<lambda>(k, r). \<not> (\<exists>r'. (k, r') \<in> set ys \<and> E r')) st"
proof (induction ys arbitrary: st)
  case Nil
  show ?case by simp
next
  case (Cons y ys)
  obtain k r where y: "y = (k, r)" by (cases y)
  show ?case
    by (auto simp: y Cons.IH AList.delete_eq intro!: filter_cong)
qed

lemma cleanup_store_filter:
  assumes "distinct (map fst s)"
  shows "fold (\<lambda>(key, rec) st. if E rec then AList.delete key st else st) s s =
         filter (\<lambda>(k, r). \<not> E r) s"
proof -
  have "(\<exists>r'. (k, r') \<in> set s \<and> E r') \<longleftrightarrow> E r" if "(k, r) \<in> set s" for k r
    using assms that by (auto dest: eq_key_imp_eq_value)
  then show ?thesis
    unfolding cleanup_fold_filter by (auto intro!: filter_cong)
qed

lemma cleanup_eq:
  "keys_distinct lim \<Longrightarrow>
   cleanup now lim =
     lim\<lparr>store := filter (\<lambda>(k, r). \<not> now - lastAccess r > windowMs (config lim) * 2) (store lim)\<rparr>"
  by (simp add: cleanup_def keys_distinct_def cleanup_store_filter Let_def)

lemma config_check [simp]: "config (snd (check now key lim)) = config lim"
  by (simp add: check_eq)

lemma hit_total: "\<exists>info lim'. hit now cnow key lim = Inr (info, lim')"
  by (simp add: hit_eq Let_def)

lemma config_hit: "hit now cnow key lim = Inr (info, lim') \<Longrightarrow> config lim' = config lim"
  by (auto simp: hit_eq Let_def split: if_splits)

lemma length_in_window: "length (in_window cfg now xs) \<le> length xs"
  by (simp add: in_window_def)

lemma set_in_window: "set (in_window cfg now xs) \<subseteq> set xs"
  by (auto simp: in_window_def)

lemma timestamps_of_within:
  "within_limit lim \<Longrightarrow> int (length (timestamps_of (store lim) key)) \<le> max 0 (limit_cfg (config lim))"
  by (auto simp: within_limit_def timestamps_of_def split: option.splits dest: map_of_list_all)

lemma timestamps_of_le:
  assumes "stamps_le_access lim" "accessed_by t lim" "x \<in> set (timestamps_of (store lim) key)"
  shows "x \<le> t"
proof (cases "map_of (store lim) key")
  case None
  with assms(3) show ?thesis by (simp add: timestamps_of_def)
next
  case (Some r)
  with assms(3) have x: "x \<in> set (timestamps r)" by (simp add: timestamps_of_def)
  from Some have "(key, r) \<in> set (store lim)" by (rule map_of_SomeD)
  with assms(1,2) have "list_all (\<lambda>t. t \<le> lastAccess r) (timestamps r)" "lastAccess r \<le> t"
    by (auto simp: stamps_le_access_def accessed_by_def list_all_iff)
  with x show ?thesis by (auto simp: list_all_iff)
qed

lemma accessed_by_mono: "accessed_by t lim \<Longrightarrow> t \<le> t' \<Longrightarrow> accessed_by t' lim"
  by (auto simp: accessed_by_def list_all_iff)

lemma invariant_new: "invariant t (new_RateLimiter cfg)"
  by (simp add: invariant_def new_RateLimiter_def startCleanup_def keys_distinct_def
      within_limit_def stamps_le_access_def accessed_by_def)

lemma invariant_check:
  assumes "invariant t lim" "t \<le> now"
  shows "invariant now (snd (check now key lim))"
proof -
  let ?xs = "in_window (config lim) now (timestamps_of (store lim) key)"
  from assms have d: "keys_distinct lim" and w: "within_limit lim"
    and s: "stamps_le_access lim" and a: "accessed_by now lim"
    by (auto simp: invariant_def intro: accessed_by_mono)
  have 1: "int (length ?xs) \<le> max 0 (limit_cfg (config lim))"
    using timestamps_of_within [OF w, of key] length_in_window [of "config lim" now "timestamps_of (store lim) key"]
    by linarith
  have 2: "list_all (\<lambda>x. x \<le> now) ?xs"
    using timestamps_of_le [OF s a] set_in_window [of "config lim" now] by (auto simp: list_all_iff)
  show ?thesis
    using d w s a 1 2
    by (simp add: invariant_def check_eq keys_distinct_def within_limit_def stamps_le_access_def
        accessed_by_def distinct_update list_all_update)
qed

lemma invariant_hit:
  assumes "invariant t lim" "t \<le> now" "now \<le> cnow" "hit now cnow key lim = Inr (info, lim')"
  shows "invariant cnow lim'"
proof -
  let ?xs = "in_window (config lim) cnow (timestamps_of (store lim) key)"
  from assms have d: "keys_distinct lim" and w: "within_limit lim"
    and s: "stamps_le_access lim" and a: "accessed_by cnow lim"
    by (auto simp: invariant_def intro: accessed_by_mono)
  have 1: "int (length ?xs) \<le> max 0 (limit_cfg (config lim))"
    using timestamps_of_within [OF w, of key] length_in_window [of "config lim" cnow "timestamps_of (store lim) key"]
    by linarith
  have 2: "list_all (\<lambda>x. x \<le> cnow) ?xs"
    using timestamps_of_le [OF s a] set_in_window [of "config lim" cnow] by (auto simp: list_all_iff)
  show ?thesis
  proof (cases "isLimited (info_of (config lim) cnow ?xs)")
    case True
    with assms(4) have "lim' = lim\<lparr>store := AList.update key \<lparr>timestamps = ?xs, lastAccess = cnow\<rparr> (store lim)\<rparr>"
      by (simp add: hit_eq Let_def)
    with d w s a 1 2 show ?thesis
      by (simp add: invariant_def keys_distinct_def within_limit_def stamps_le_access_def
        accessed_by_def distinct_update list_all_update)
  next
    case False
    with assms(4) have l: "lim' = lim\<lparr>store := AList.update key \<lparr>timestamps = ?xs @ [now], lastAccess = cnow\<rparr> (store lim)\<rparr>"
      by (simp add: hit_eq Let_def)
    from False have 3: "int (length ?xs) + 1 \<le> max 0 (limit_cfg (config lim))"
      by (simp add: info_of_def max_def split: if_splits)
    from l d w s a 2 3 assms(3) show ?thesis
      by (simp add: invariant_def keys_distinct_def within_limit_def stamps_le_access_def
        accessed_by_def distinct_update list_all_update)
  qed
qed

lemma invariant_reset: "invariant t lim \<Longrightarrow> invariant t (reset key lim)"
  by (simp add: invariant_def reset_def keys_distinct_def within_limit_def stamps_le_access_def
      accessed_by_def distinct_delete list_all_delete)

lemma invariant_resetAll: "invariant t lim \<Longrightarrow> invariant t (resetAll lim)"
  by (simp add: invariant_def resetAll_def keys_distinct_def within_limit_def stamps_le_access_def
      accessed_by_def)

lemma invariant_stop: "invariant t lim \<Longrightarrow> invariant t (stop lim)"
  by (simp add: invariant_def stop_def keys_distinct_def within_limit_def stamps_le_access_def
      accessed_by_def split: option.splits)

lemma invariant_cleanup:
  assumes "invariant t lim" "t \<le> now"
  shows "invariant now (cleanup now lim)"
proof -
  from assms have d: "keys_distinct lim" and a: "accessed_by now lim"
    by (auto simp: invariant_def intro: accessed_by_mono)
  show ?thesis
    using assms(1) a d
    by (simp add: cleanup_eq [OF d] invariant_def keys_distinct_def within_limit_def
        stamps_le_access_def accessed_by_def distinct_map_filter list_all_iff)
qed

lemma reachable_invariant: "reachable t lim \<Longrightarrow> invariant t lim"
  by (induction rule: reachable.induct)
     (auto intro: invariant_new invariant_check invariant_hit invariant_reset invariant_resetAll
        invariant_cleanup invariant_stop)

lemma run_calls_append:
  "run_calls (cs @ ds) lim =
     (case run_calls cs lim of
        Inl e \<Rightarrow> Inl e
      | Inr (is, l) \<Rightarrow>
          (case run_calls ds l of Inl e \<Rightarrow> Inl e | Inr (js, l') \<Rightarrow> Inr (is @ js, l')))"
  by (induction cs arbitrary: lim) (auto split: sum.splits)

lemma in_window_all:
  "\<forall>x\<in>set xs. c - x < windowMs cfg \<Longrightarrow> in_window cfg c xs = xs"
  by (induction xs) (auto simp: in_window_def)

lemma hits_admitted:
  assumes "int (length (timestamps_of (store lim) key)) + int (length rs) \<le> limit_cfg (config lim)"
    and "\<forall>c \<in> snd ` set rs. \<forall>x \<in> set (timestamps_of (store lim) key) \<union> fst ` set rs.
           c - x < windowMs (config lim)"
  shows "\<exists>infos lim'. run_calls (hits_on key rs) lim = Inr (infos, lim')
           \<and> map (map_option isLimited) infos = replicate (length rs) (Some False)
           \<and> timestamps_of (store lim') key = timestamps_of (store lim) key @ map fst rs
           \<and> config lim' = config lim"
  using assms
proof (induction rs arbitrary: lim)
  case Nil
  show ?case by (simp add: hits_on_def)
next
  case (Cons r rs)
  obtain a c where r: "r = (a, c)" by (cases r)
  let ?xs = "timestamps_of (store lim) key"
  let ?l1 = "lim\<lparr>store := AList.update key \<lparr>timestamps = ?xs @ [a], lastAccess = c\<rparr> (store lim)\<rparr>"
  let ?i1 = "(info_of (config lim) c ?xs)\<lparr>remaining := max 0 (remaining (info_of (config lim) c ?xs) - 1)\<rparr>"
  have w: "in_window (config lim) c ?xs = ?xs"
    using Cons.prems(2) by (intro in_window_all) (auto simp: r)
  have nl: "\<not> isLimited (info_of (config lim) c ?xs)"
    using Cons.prems(1) by (simp add: info_of_def)
  have h: "hit a c key lim = Inr (?i1, ?l1)"
    using nl by (simp add: hit_eq Let_def w)
  have t1: "timestamps_of (store ?l1) key = ?xs @ [a]"
    by (simp add: timestamps_of_update)
  have "\<exists>infos lim'. run_calls (hits_on key rs) ?l1 = Inr (infos, lim')
           \<and> map (map_option isLimited) infos = replicate (length rs) (Some False)
           \<and> timestamps_of (store lim') key = timestamps_of (store ?l1) key @ map fst rs
           \<and> config lim' = config ?l1"
  proof (rule Cons.IH)
    show "int (length (timestamps_of (store ?l1) key)) + int (length rs) \<le> limit_cfg (config ?l1)"
      using Cons.prems(1) by (simp add: timestamps_of_update)
    show "\<forall>c \<in> snd ` set rs. \<forall>x \<in> set (timestamps_of (store ?l1) key) \<union> fst ` set rs.
           c - x < windowMs (config ?l1)"
      using Cons.prems(2) by (simp add: timestamps_of_update r ball_Un)
  qed
  then obtain infos lim' where run: "run_calls (hits_on key rs) ?l1 = Inr (infos, lim')"
    and dec: "map (map_option isLimited) infos = replicate (length rs) (Some False)"
    and ts: "timestamps_of (store lim') key = (?xs @ [a]) @ map fst rs"
    and cf: "config lim' = config lim"
    unfolding t1 by auto
  have "run_calls (hits_on key (r # rs)) lim = Inr (Some ?i1 # infos, lim')"
    using h run by (simp add: hits_on_def r)
  moreover have "map (map_option isLimited) (Some ?i1 # infos) = replicate (length (r # rs)) (Some False)"
    using dec nl by simp
  moreover have "timestamps_of (store lim') key = ?xs @ map fst (r # rs)"
    using ts by (simp add: r)
  ultimately show ?case using cf by blast
qed

lemma set_readings: "set (readings rs) = fst ` set rs \<union> snd ` set rs"
  by (induction rs) (auto simp: readings_def)

lemma length_update:
  "length (AList.update k v al) = (if map_of al k = None then Suc (length al) else length al)"
  by (induction al) auto

lemma in_window_twice:
  "now \<le> t \<Longrightarrow> in_window cfg t (in_window cfg now xs) = in_window cfg t xs"
  by (induction xs) (auto simp: in_window_def)

lemma timestamps_of_check:
  "timestamps_of (store (snd (check now key lim))) k =
     (if k = key then in_window (config lim) now (timestamps_of (store lim) key)
      else timestamps_of (store lim) k)"
  by (simp add: check_eq timestamps_of_update)

lemma info_after_check:
  "now \<le> t \<Longrightarrow> fst (check t k (snd (check now key lim))) = fst (check t k lim)"
  by (simp add: check_eq [of t] timestamps_of_check in_window_twice)

lemma hit_fst:
  "map_sum id fst (hit a c key lim) =
     (let info = fst (check c key lim)
      in Inr (if isLimited info then info else info\<lparr>remaining := max 0 (remaining info - 1)\<rparr>))"
  by (simp add: hit_eq check_eq Let_def)

lemma check_resetAt:
  "resetAt (fst (check now key lim)) =
     (case filter (\<lambda>ts. ts > now - windowMs (config lim)) (timestamps_of (store lim) key) of
        [] \<Rightarrow> now + windowMs (config lim)
      | oldest # _ \<Rightarrow> if oldest = 0 then now + windowMs (config lim)
                     else oldest + windowMs (config lim))"
  by (simp add: check_eq info_of_def in_window_def split: list.splits)

lemma check_resetAt_nonzero:
  assumes "filter (\<lambda>ts. ts > now - windowMs (config lim)) (timestamps_of (store lim) key) = oldest # rest"
    and "oldest \<noteq> 0"
  shows "resetAt (fst (check now key lim)) = oldest + windowMs (config lim)"
  using assms by (simp add: check_resetAt)

lemma check_resetAt_empty:
  assumes "filter (\<lambda>ts. ts > now - windowMs (config lim)) (timestamps_of (store lim) key) = []"
  shows "resetAt (fst (check now key lim)) = now + windowMs (config lim)"
  using assms by (simp add: check_resetAt)

lemma apply_call_total: "\<exists>i l. apply_call c lim = Inr (i, l)"
  by (cases c) (auto simp: check_eq getInfo_def hit_eq Let_def)

lemma run_calls_total: "\<exists>infos lim'. run_calls cs lim = Inr (infos, lim')"
proof (induction cs arbitrary: lim)
  case Nil
  show ?case by simp
next
  case (Cons c cs)
  obtain i l where c: "apply_call c lim = Inr (i, l)"
    using apply_call_total by blast
  obtain infos lim' where "run_calls cs l = Inr (infos, lim')"
    using Cons.IH by blast
  with c show ?case by simp
qed

lemma apply_call_other_key:
  assumes "apply_call c lim = Inr (i, l)" "call_key c \<noteq> B"
  shows "map_of (store l) B = map_of (store lim) B \<and> config l = config lim
         \<and> cleanupInterval l = cleanupInterval lim"
  using assms
  by (cases c)
     (auto simp: check_eq getInfo_def hit_eq Let_def reset_def update_conv' delete_conv'
           split: if_splits)

lemma run_calls_other_key:
  assumes "run_calls cs lim = Inr (infos, lim')" "list_all (\<lambda>c. call_key c \<noteq> B) cs"
  shows "map_of (store lim') B = map_of (store lim) B \<and> config lim' = config lim
         \<and> cleanupInterval lim' = cleanupInterval lim"
  using assms
proof (induction cs arbitrary: lim infos)
  case Nil
  then show ?case by simp
next
  case (Cons c cs)
  obtain i l where c: "apply_call c lim = Inr (i, l)"
    using apply_call_total by blast
  obtain js where r: "run_calls cs l = Inr (js, lim')"
    using Cons.prems(1) c by (auto split: sum.splits)
  from Cons.prems(2) have k: "call_key c \<noteq> B" and ks: "list_all (\<lambda>c. call_key c \<noteq> B) cs"
    by simp_all
  from apply_call_other_key [OF c k] Cons.IH [OF r ks] show ?case by simp
qed

lemma check_fst_cong:
  assumes "map_of (store l1) k = map_of (store l2) k" "config l1 = config l2"
  shows "fst (check t k l1) = fst (check t k l2)"
  using assms by (simp add: check_eq timestamps_of_def)

lemma map_of_filter_distinct:
  "distinct (map fst al) \<Longrightarrow>
   map_of (filter P al) k =
     (case map_of al k of None \<Rightarrow> None | Some r \<Rightarrow> if P (k, r) then Some r else None)"
proof (induction al)
  case Nil
  show ?case by simp
next
  case (Cons p al)
  obtain k' r' where p: "p = (k', r')" by (cases p)
  from Cons.prems have notin: "k' \<notin> fst ` set al" and d: "distinct (map fst al)"
    by (simp_all add: p)
  from notin have none: "map_of al k' = None"
    by (simp add: map_of_eq_None_iff)
  show ?case
    using Cons.IH [OF d] none by (auto simp: p split: option.splits)
qed

lemma apply_call_frame:
  assumes "apply_call c lim = Inr (i, l)"
  shows "config l = config lim \<and> cleanupInterval l = cleanupInterval lim"
  using assms
  by (cases c) (auto simp: check_eq getInfo_def hit_eq Let_def reset_def split: if_splits)

lemma run_calls_frame:
  assumes "run_calls cs lim = Inr (infos, lim')"
  shows "config lim' = config lim \<and> cleanupInterval lim' = cleanupInterval lim"
  using assms
proof (induction cs arbitrary: lim infos)
  case Nil
  then show ?case by simp
next
  case (Cons c cs)
  obtain i l where c: "apply_call c lim = Inr (i, l)"
    using apply_call_total by blast
  obtain js where r: "run_calls cs l = Inr (js, lim')"
    using Cons.prems(1) c by (auto split: sum.splits)
  from apply_call_frame [OF c] Cons.IH [OF r] show ?case by simp
qed

lemma timestamps_of_delete:
  "timestamps_of (AList.delete key s) k = (if k = key then [] else timestamps_of s k)"
  by (simp add: timestamps_of_def delete_conv')

lemma expired_out_of_window:
  assumes le: "list_all (\<lambda>x. x \<le> lastAccess r) (timestamps r)"
    and acc: "lastAccess r \<le> now"
    and old: "lastAccess r < now - 2 * windowMs cfg"
    and t: "now \<le> t"
  shows "in_window cfg t (timestamps r) = []"
proof -
  have "\<not> x > t - windowMs cfg" if "x \<in> set (timestamps r)" for x
  proof -
    from le that have "x \<le> lastAccess r" by (simp add: list_all_iff)
    with acc old t show ?thesis by (cases "0 \<le> windowMs cfg") linarith+
  qed
  then show ?thesis by (simp add: in_window_def)
qed

lemma window_equiv_cleanup:
  assumes "invariant now lim"
  shows "window_equiv (config lim) now (store (cleanup now lim)) (store lim)"
  unfolding window_equiv_def
proof (intro allI impI)
  fix k t
  assume t: "now \<le> t"
  from assms have d: "keys_distinct lim" and s: "stamps_le_access lim" and a: "accessed_by now lim"
    by (simp_all add: invariant_def)
  have dd: "distinct (map fst (store lim))" using d by (simp add: keys_distinct_def)
  show "in_window (config lim) t (timestamps_of (store (cleanup now lim)) k) =
        in_window (config lim) t (timestamps_of (store lim) k)"
  proof (cases "map_of (store lim) k")
    case None
    then show ?thesis
      by (simp add: cleanup_eq [OF d] timestamps_of_def map_of_filter_distinct [OF dd])
  next
    case (Some r)
    then have mem: "(k, r) \<in> set (store lim)" by (rule map_of_SomeD)
    show ?thesis
    proof (cases "now - lastAccess r > windowMs (config lim) * 2")
      case True
      from mem s a have "list_all (\<lambda>x. x \<le> lastAccess r) (timestamps r)" "lastAccess r \<le> now"
        by (auto simp: stamps_le_access_def accessed_by_def list_all_iff)
      moreover from True have "lastAccess r < now - 2 * windowMs (config lim)" by simp
      ultimately have "in_window (config lim) t (timestamps r) = []"
        using t by (rule expired_out_of_window)
      with Some True show ?thesis
        by (simp add: cleanup_eq [OF d] timestamps_of_def map_of_filter_distinct [OF dd] in_window_def)
    next
      case False
      with Some show ?thesis
        by (simp add: cleanup_eq [OF d] timestamps_of_def map_of_filter_distinct [OF dd])
    qed
  qed
qed

lemma window_equiv_step:
  assumes eq: "window_equiv (config l1) n (store l1) (store l2)" and cf: "config l2 = config l1"
    and nb: "not_before n c"
    and a1: "apply_call c l1 = Inr (i1, l1')" and a2: "apply_call c l2 = Inr (i2, l2')"
  shows "i1 = i2 \<and> window_equiv (config l1') n (store l1') (store l2') \<and> config l2' = config l1'"
proof (cases c)
  case (Check key now)
  with nb have n: "n \<le> now" by (simp add: not_before_def)
  from eq n have w: "in_window (config l1) now (timestamps_of (store l1) key) =
      in_window (config l1) now (timestamps_of (store l2) key)"
    by (simp add: window_equiv_def)
  from a1 a2 eq show ?thesis
    by (auto simp: Check check_eq cf w window_equiv_def timestamps_of_update)
next
  case (GetInfo key now)
  with nb have n: "n \<le> now" by (simp add: not_before_def)
  from eq n have w: "in_window (config l1) now (timestamps_of (store l1) key) =
      in_window (config l1) now (timestamps_of (store l2) key)"
    by (simp add: window_equiv_def)
  from a1 a2 eq show ?thesis
    by (auto simp: GetInfo getInfo_def check_eq cf w window_equiv_def timestamps_of_update)
next
  case (Hit key now cnow)
  with nb have n: "n \<le> cnow" by (simp add: not_before_def)
  from eq n have w: "in_window (config l1) cnow (timestamps_of (store l1) key) =
      in_window (config l1) cnow (timestamps_of (store l2) key)"
    by (simp add: window_equiv_def)
  from a1 a2 eq show ?thesis
    by (auto simp: Hit hit_eq Let_def cf w window_equiv_def timestamps_of_update split: if_splits)
next
  case (Reset key)
  from a1 a2 eq show ?thesis
    by (auto simp: Reset reset_def cf window_equiv_def timestamps_of_delete)
qed

lemma window_equiv_run:
  assumes "window_equiv (config l1) n (store l1) (store l2)" and "config l2 = config l1"
    and "list_all (not_before n) cs"
  shows "outcomes cs l1 = outcomes cs l2"
  using assms
proof (induction cs arbitrary: l1 l2)
  case Nil
  show ?case by (simp add: outcomes_def)
next
  case (Cons c cs)
  obtain i1 l1' where a1: "apply_call c l1 = Inr (i1, l1')"
    using apply_call_total by blast
  obtain i2 l2' where a2: "apply_call c l2 = Inr (i2, l2')"
    using apply_call_total by blast
  from Cons.prems(3) have nb: "not_before n c" and nbs: "list_all (not_before n) cs"
    by simp_all
  from window_equiv_step [OF Cons.prems(1,2) nb a1 a2]
  have i: "i1 = i2" and w: "window_equiv (config l1') n (store l1') (store l2')"
    and c: "config l2' = config l1'"
    by simp_all
  have "outcomes cs l1' = outcomes cs l2'"
    using w c nbs by (rule Cons.IH)
  then show ?case
    using a1 a2 i by (auto simp: outcomes_def split: sum.splits)
qed

lemma spread_empty [simp]: "spread a empty_config = a"
  by (simp add: spread_def empty_config_def)

lemma map_of_setHeader:
  "map_of (res_headers (setHeader name v res)) n =
     (if n = name then Some v else map_of (res_headers res) n)"
  by (simp add: setHeader_def update_conv')

lemma setHeader_fields [simp]:
  "statusCode (setHeader name v res) = statusCode res"
  "body (setHeader name v res) = body res"
  by (simp_all add: setHeader_def)

lemma in_window_filter: "in_window cfg c xs = filter (\<lambda>t. c - windowMs cfg < t) xs"
  by (simp add: in_window_def)

lemma in_window_append: "in_window cfg c (xs @ ys) = in_window cfg c xs @ in_window cfg c ys"
  by (simp add: in_window_def)

lemma hits_refine_sliding_log:
  assumes "\<forall>c. c0 \<le> c \<longrightarrow>
             in_window (config lim) c (timestamps_of (store lim) key) = in_window (config lim) c adm"
    and "sorted (c0 # map snd rs)"
  shows "\<exists>infos lim'. run_calls (hits_on key rs) lim = Inr (infos, lim')
           \<and> map (map_option (\<lambda>i. (isLimited i, remaining i))) infos =
               map Some (sliding_log (limit_cfg (config lim)) (windowMs (config lim)) adm rs)
           \<and> config lim' = config lim
           \<and> (\<forall>c. last (c0 # map snd rs) \<le> c \<longrightarrow>
                 in_window (config lim) c (timestamps_of (store lim') key) =
                 in_window (config lim) c
                   (admitted_log (limit_cfg (config lim)) (windowMs (config lim)) adm rs))"
  using assms
proof (induction rs arbitrary: lim adm c0)
  case Nil
  then show ?case by (simp add: hits_on_def)
next
  case (Cons r rs)
  obtain a c where r: "r = (a, c)" by (cases r)
  let ?L = "limit_cfg (config lim)" and ?W = "windowMs (config lim)"
  let ?xs = "in_window (config lim) c (timestamps_of (store lim) key)"
  let ?i = "info_of (config lim) c ?xs"
  from Cons.prems(2) have c0: "c0 \<le> c" and srt: "sorted (c # map snd rs)"
    by (simp_all add: r)
  from Cons.prems(1) c0 have xs: "?xs = in_window (config lim) c adm" by blast
  have cnt: "int (length ?xs) = int (length (filter (\<lambda>t. c - ?W < t) adm))"
    unfolding xs by (simp add: in_window_filter)
  show ?case
  proof (cases "?L \<le> int (length ?xs)")
    case True
    let ?l1 = "lim\<lparr>store := AList.update key \<lparr>timestamps = ?xs, lastAccess = c\<rparr> (store lim)\<rparr>"
    have li: "isLimited ?i" "remaining ?i = 0" using True by (simp_all add: info_of_def)
    have h: "hit a c key lim = Inr (?i, ?l1)"
      using li by (simp add: hit_eq Let_def)
    have inv: "\<forall>c'. c \<le> c' \<longrightarrow>
             in_window (config ?l1) c' (timestamps_of (store ?l1) key) = in_window (config ?l1) c' adm"
    proof (intro allI impI)
      fix c' assume c': "c \<le> c'"
      have "in_window (config lim) c' ?xs = in_window (config lim) c' (timestamps_of (store lim) key)"
        using c' by (rule in_window_twice)
      also have "\<dots> = in_window (config lim) c' adm"
        using Cons.prems(1) c0 c' by simp
      finally show "in_window (config ?l1) c' (timestamps_of (store ?l1) key) = in_window (config ?l1) c' adm"
        by (simp add: timestamps_of_update)
    qed
    from Cons.IH [OF inv] srt
    obtain infos lim' where run: "run_calls (hits_on key rs) ?l1 = Inr (infos, lim')"
      and v: "map (map_option (\<lambda>i. (isLimited i, remaining i))) infos =
               map Some (sliding_log ?L ?W adm rs)"
      and cf: "config lim' = config lim"
      and w: "\<forall>c'. last (c # map snd rs) \<le> c' \<longrightarrow>
                 in_window (config lim) c' (timestamps_of (store lim') key) =
                 in_window (config lim) c' (admitted_log ?L ?W adm rs)"
      by auto
    have "run_calls (hits_on key (r # rs)) lim = Inr (Some ?i # infos, lim')"
      using h run by (simp add: hits_on_def r)
    moreover have "map (map_option (\<lambda>i. (isLimited i, remaining i))) (Some ?i # infos) =
               map Some (sliding_log ?L ?W adm (r # rs))"
      using True v li by (simp add: r cnt Let_def)
    moreover have "\<forall>c'. last (c0 # map snd (r # rs)) \<le> c' \<longrightarrow>
                 in_window (config lim) c' (timestamps_of (store lim') key) =
                 in_window (config lim) c' (admitted_log ?L ?W adm (r # rs))"
      using True w by (simp add: r cnt)
    ultimately show ?thesis using cf by blast
  next
    case False
    let ?l1 = "lim\<lparr>store := AList.update key \<lparr>timestamps = ?xs @ [a], lastAccess = c\<rparr> (store lim)\<rparr>"
    let ?i1 = "?i\<lparr>remaining := max 0 (remaining ?i - 1)\<rparr>"
    have li: "\<not> isLimited ?i" using False by (simp add: info_of_def)
    have rem: "isLimited ?i1 = False" "remaining ?i1 = ?L - int (length ?xs) - 1"
      using False by (simp_all add: info_of_def)
    have h: "hit a c key lim = Inr (?i1, ?l1)"
      using li by (simp add: hit_eq Let_def)
    have inv: "\<forall>c'. c \<le> c' \<longrightarrow>
             in_window (config ?l1) c' (timestamps_of (store ?l1) key) =
             in_window (config ?l1) c' (adm @ [a])"
    proof (intro allI impI)
      fix c' assume c': "c \<le> c'"
      have "in_window (config lim) c' ?xs = in_window (config lim) c' (timestamps_of (store lim) key)"
        using c' by (rule in_window_twice)
      also have "\<dots> = in_window (config lim) c' adm"
        using Cons.prems(1) c0 c' by simp
      finally show "in_window (config ?l1) c' (timestamps_of (store ?l1) key) =
             in_window (config ?l1) c' (adm @ [a])"
        by (simp add: timestamps_of_update in_window_append)
    qed
    from Cons.IH [OF inv] srt
    obtain infos lim' where run: "run_calls (hits_on key rs) ?l1 = Inr (infos, lim')"
      and v: "map (map_option (\<lambda>i. (isLimited i, remaining i))) infos =
               map Some (sliding_log ?L ?W (adm @ [a]) rs)"
      and cf: "config lim' = config lim"
      and w: "\<forall>c'. last (c # map snd rs) \<le> c' \<longrightarrow>
                 in_window (config lim) c' (timestamps_of (store lim') key) =
                 in_window (config lim) c' (admitted_log ?L ?W (adm @ [a]) rs)"
      by auto
    have "run_calls (hits_on key (r # rs)) lim = Inr (Some ?i1 # infos, lim')"
      using h run by (simp add: hits_on_def r)
    moreover have "map (map_option (\<lambda>i. (isLimited i, remaining i))) (Some ?i1 # infos) =
               map Some (sliding_log ?L ?W adm (r # rs))"
      using False v rem by (simp add: r cnt Let_def)
    moreover have "\<forall>c'. last (c0 # map snd (r # rs)) \<le> c' \<longrightarrow>
                 in_window (config lim) c' (timestamps_of (store lim') key) =
                 in_window (config lim) c' (admitted_log ?L ?W adm (r # rs))"
      using False w by (simp add: r cnt)
    ultimately show ?thesis using cf by blast
  qed
qed

lemma sliding_log_snoc:
  "sliding_log L W adm (rs @ [(a, c)]) =
     sliding_log L W adm rs @
       [(let count = int (length (filter (\<lambda>t. c - W < t) (admitted_log L W adm rs)))
         in if L \<le> count then (True, 0) else (False, L - count - 1))]"
  by (induction L W adm rs rule: sliding_log.induct) (simp_all add: Let_def)

lemma burst_then_window:
  assumes fresh: "map_of (store lim) key = None"
    and L: "limit_cfg (config lim) = int (length rs)"
    and sub: "\<forall>x \<in> set (readings (rs @ [r])). \<forall>y \<in> set (readings (rs @ [r])).
                y - x < windowMs (config lim)"
  shows "decisions (hits_on key (rs @ [r])) lim =
           Inr (replicate (length rs) (Some False) @ [Some True])
       \<and> (rs \<noteq> [] \<longrightarrow>
            (\<forall>r'. fst (hd rs) + windowMs (config lim) \<le> snd r' \<longrightarrow>
               decisions (hits_on key (rs @ [r, r'])) lim =
                 Inr (replicate (length rs) (Some False) @ [Some True, Some False])))"
proof -
  let ?W = "windowMs (config lim)"
  have t0: "timestamps_of (store lim) key = []"
    using fresh by (simp add: timestamps_of_def)
  have "\<exists>infos lim'. run_calls (hits_on key rs) lim = Inr (infos, lim')
           \<and> map (map_option isLimited) infos = replicate (length rs) (Some False)
           \<and> timestamps_of (store lim') key = timestamps_of (store lim) key @ map fst rs
           \<and> config lim' = config lim"
  proof (rule hits_admitted)
    show "int (length (timestamps_of (store lim) key)) + int (length rs) \<le> limit_cfg (config lim)"
      by (simp add: t0 L)
    show "\<forall>c \<in> snd ` set rs. \<forall>x \<in> set (timestamps_of (store lim) key) \<union> fst ` set rs. c - x < ?W"
      using sub by (simp add: t0 set_readings ball_Un)
  qed
  then obtain infos lim1 where run: "run_calls (hits_on key rs) lim = Inr (infos, lim1)"
    and dec: "map (map_option isLimited) infos = replicate (length rs) (Some False)"
    and ts: "timestamps_of (store lim1) key = map fst rs"
    and cf: "config lim1 = config lim"
    by (auto simp: t0)
  obtain a c where r: "r = (a, c)" by (cases r)
  let ?i = "info_of (config lim) c (map fst rs)"
  let ?lim2 = "lim1\<lparr>store := AList.update key \<lparr>timestamps = map fst rs, lastAccess = c\<rparr> (store lim1)\<rparr>"
  have w: "in_window (config lim) c (map fst rs) = map fst rs"
    using sub by (intro in_window_all) (simp add: r set_readings ball_Un)
  have lim_i: "isLimited ?i"
    by (simp add: info_of_def L)
  have h: "hit a c key lim1 = Inr (?i, ?lim2)"
    using lim_i by (simp add: hit_eq Let_def ts cf w)
  have runA: "run_calls (hits_on key (rs @ [r])) lim = Inr (infos @ [Some ?i], ?lim2)"
    using run h by (simp add: hits_on_def run_calls_append r)
  have A: "decisions (hits_on key (rs @ [r])) lim =
             Inr (replicate (length rs) (Some False) @ [Some True])"
    using dec lim_i by (simp add: decisions_def outcomes_def runA)
  have B: "decisions (hits_on key (rs @ [r, r'])) lim =
             Inr (replicate (length rs) (Some False) @ [Some True, Some False])"
    if ne: "rs \<noteq> []" and late: "fst (hd rs) + ?W \<le> snd r'" for r'
  proof -
    obtain a' c' where r': "r' = (a', c')" by (cases r')
    obtain p ps where rs: "rs = p # ps" using ne by (cases rs) auto
    let ?ys = "in_window (config lim) c' (map fst rs)"
    have "\<not> fst p > c' - ?W" using late by (simp add: rs r')
    then have "?ys = in_window (config lim) c' (map fst ps)"
      by (simp add: in_window_def rs)
    then have "length ?ys \<le> length ps"
      using length_in_window [of "config lim" c' "map fst ps"] by simp
    then have nl: "\<not> isLimited (info_of (config lim) c' ?ys)"
      by (simp add: info_of_def L rs)
    have t2: "timestamps_of (store ?lim2) key = map fst rs"
      by (simp add: timestamps_of_update)
    have "\<exists>i3 lim3. hit a' c' key ?lim2 = Inr (i3, lim3) \<and> \<not> isLimited i3"
      using nl by (simp add: hit_eq Let_def timestamps_of_update cf)
    then obtain i3 lim3 where h3: "hit a' c' key ?lim2 = Inr (i3, lim3)" and n3: "\<not> isLimited i3"
      by blast
    have "rs @ [r, r'] = (rs @ [r]) @ [r']" by simp
    then have "run_calls (hits_on key (rs @ [r, r'])) lim = Inr ((infos @ [Some ?i]) @ [Some i3], lim3)"
      using runA h3 by (simp only: hits_on_def map_append run_calls_append)
         (simp add: r')
    then show ?thesis
      using dec lim_i n3 by (simp add: decisions_def outcomes_def)
  qed
  from A B show ?thesis by blast
qed

lemma decisions_verdicts:
  "decisions cs lim = map_sum id (map (map_option fst)) (verdicts cs lim)"
  by (cases "outcomes cs lim") (simp_all add: decisions_def verdicts_def comp_def option.map_comp)

lemma hits_fresh_sliding_log:
  assumes fresh: "map_of (store lim) key = None" and srt: "sorted (map snd tr)"
  shows "verdicts (hits_on key tr) lim =
           Inr (map Some (sliding_log (limit_cfg (config lim)) (windowMs (config lim)) [] tr))"
proof -
  define c0 where "c0 = (case tr of [] \<Rightarrow> 0 | r # _ \<Rightarrow> snd r)"
  have s: "sorted (c0 # map snd tr)"
    using srt by (cases tr) (auto simp: c0_def)
  have e: "\<forall>c. c0 \<le> c \<longrightarrow>
             in_window (config lim) c (timestamps_of (store lim) key) = in_window (config lim) c []"
    using fresh by (simp add: timestamps_of_def)
  from hits_refine_sliding_log [OF e s]
  obtain infos lim' where "run_calls (hits_on key tr) lim = Inr (infos, lim')"
    and "map (map_option (\<lambda>i. (isLimited i, remaining i))) infos =
               map Some (sliding_log (limit_cfg (config lim)) (windowMs (config lim)) [] tr)"
    by blast
  then show ?thesis by (simp add: verdicts_def outcomes_def)
qed

lemma hit_nonpositive_limit:
  assumes "limit_cfg (config st) \<le> 0"
  shows "\<exists>i l. hit now cnow k st = Inr (i, l) \<and> isLimited i \<and> remaining i = 0"
  using assms by (simp add: hit_eq Let_def info_of_def)

lemma skipped_request_passes:
  assumes "skip_opt (user_config mw) = Some f" and "f req"
  shows "middleware env req res mw =
           Inr (\<lparr>out_res = res, next_called = True, audited = []\<rparr>, mw)"
  using assms by (simp add: middleware_def)

section \<open>The claims\<close>

text \<open>
  C1 (amended): for every limiter with limit \<open>L\<close> and window \<open>W\<close> and every fresh key,
  under a clock that does not run backwards, the hits on the key get the decisions and the
  remaining counts of the sliding log: each hit is limited exactly when at least \<open>L\<close>
  admitted hits of the key were recorded within the \<open>W\<close> milliseconds before it, whatever
  fixed bucket it falls in. So any hit, after any earlier hits, is admitted once enough old
  timestamps have aged out of the window, that is when fewer than \<open>L\<close> admitted readings
  are left in it, and is limited otherwise. When \<open>L\<close> hits and one more make all their
  clock readings within a sub-window of length less than \<open>W\<close>, the first \<open>L\<close> are
  admitted and the \<open>(L+1)\<close>-th is limited; when \<open>L \<ge> 1\<close>, the next hit made at least
  \<open>W\<close> after the first one is admitted. With a limit \<open>L \<le> 0\<close> every hit, in every
  state, is limited.
\<close>

theorem sliding_window_admission:
  assumes "map_of (store lim) key = None"
  shows "(sorted (map snd tr) \<longrightarrow>
            verdicts (hits_on key tr) lim =
              Inr (map Some (sliding_log (limit_cfg (config lim)) (windowMs (config lim)) [] tr)))
       \<and> (sorted (map snd (tr @ [h])) \<longrightarrow>
            decisions (hits_on key (tr @ [h])) lim =
              Inr (map (\<lambda>v. Some (fst v))
                       (sliding_log (limit_cfg (config lim)) (windowMs (config lim)) [] tr) @
                   [Some (limit_cfg (config lim) \<le>
                          int (length (filter (\<lambda>t. snd h - windowMs (config lim) < t)
                            (admitted_log (limit_cfg (config lim)) (windowMs (config lim)) [] tr))))]))
       \<and> (limit_cfg (config lim) = int (length rs)
            \<and> (\<forall>x \<in> set (readings (rs @ [r])). \<forall>y \<in> set (readings (rs @ [r])).
                  y - x < windowMs (config lim)) \<longrightarrow>
            decisions (hits_on key (rs @ [r])) lim =
              Inr (replicate (length rs) (Some False) @ [Some True])
            \<and> (rs \<noteq> [] \<longrightarrow>
                 (\<forall>r'. fst (hd rs) + windowMs (config lim) \<le> snd r' \<longrightarrow>
                    decisions (hits_on key (rs @ [r, r'])) lim =
                      Inr (replicate (length rs) (Some False) @ [Some True, Some False]))))
       \<and> (limit_cfg (config st) \<le> 0 \<longrightarrow>
            (\<exists>i l. hit now cnow k st = Inr (i, l) \<and> isLimited i \<and> remaining i = 0))"
proof -
  let ?L = "limit_cfg (config lim)" and ?W = "windowMs (config lim)"
  have A: "verdicts (hits_on key tr) lim = Inr (map Some (sliding_log ?L ?W [] tr))"
    if "sorted (map snd tr)"
    using assms that by (rule hits_fresh_sliding_log)
  have B: "decisions (hits_on key (tr @ [h])) lim =
              Inr (map (\<lambda>v. Some (fst v)) (sliding_log ?L ?W [] tr) @
                   [Some (?L \<le> int (length (filter (\<lambda>t. snd h - ?W < t)
                            (admitted_log ?L ?W [] tr))))])"
    if s: "sorted (map snd (tr @ [h]))"
  proof -
    obtain a c where h: "h = (a, c)" by (cases h)
    have "verdicts (hits_on key (tr @ [h])) lim = Inr (map Some (sliding_log ?L ?W [] (tr @ [h])))"
      using assms s by (rule hits_fresh_sliding_log)
    then show ?thesis
      by (simp add: decisions_verdicts h sliding_log_snoc Let_def comp_def)
  qed
  have C: "decisions (hits_on key (rs @ [r])) lim =
              Inr (replicate (length rs) (Some False) @ [Some True])
            \<and> (rs \<noteq> [] \<longrightarrow>
                 (\<forall>r'. fst (hd rs) + ?W \<le> snd r' \<longrightarrow>
                    decisions (hits_on key (rs @ [r, r'])) lim =
                      Inr (replicate (length rs) (Some False) @ [Some True, Some False])))"
    if "?L = int (length rs)"
      and "\<forall>x \<in> set (readings (rs @ [r])). \<forall>y \<in> set (readings (rs @ [r])). y - x < ?W"
    using assms that by (rule burst_then_window)
  have D: "\<exists>i l. hit now cnow k st = Inr (i, l) \<and> isLimited i \<and> remaining i = 0"
    if "limit_cfg (config st) \<le> 0"
    using that by (rule hit_nonpositive_limit)
  from A B C D show ?thesis by blast
qed

theorem sliding_window_admission_witness:
  "map_of (store (new_RateLimiter testStrict)) ''a'' = None
   \<and> sorted (map snd [(0, 0), (60, 60), (65, 65), (125, 125), (130, 130::int)])
   \<and> verdicts (hits_on ''a'' [(0, 0), (60, 60), (65, 65), (125, 125), (130, 130)])
        (new_RateLimiter testStrict) =
       Inr [Some (False, 1), Some (False, 0), Some (True, 0), Some (False, 0), Some (True, 0)]
   \<and> decisions (hits_on ''a'' [(0, 0), (60, 60), (65, 65)]) (new_RateLimiter testStrict) =
       Inr [Some False, Some False, Some True]
   \<and> decisions (hits_on ''a'' [(0, 0), (60, 60), (65, 65), (125, 125)]) (new_RateLimiter testStrict) =
       Inr [Some False, Some False, Some True, Some False]
   \<and> sorted (map snd ([(0, 0), (60, 60), (65, 65), (125, 125), (130, 130)] @ [(200, 200::int)]))
   \<and> decisions (hits_on ''a'' ([(0, 0), (60, 60), (65, 65), (125, 125), (130, 130)] @ [(200, 200)]))
        (new_RateLimiter testStrict) =
       Inr [Some False, Some False, Some True, Some False, Some True, Some False]
   \<and> limit_cfg (config limiter_zero) \<le> 0
   \<and> (\<exists>i l. hit 7 7 ''a'' limiter_zero = Inr (i, l) \<and> isLimited i)"
proof -
  let ?lim = "new_RateLimiter testStrict"
  let ?tr = "[(0, 0), (60, 60), (65, 65), (125, 125), (130, 130::int)]"
  let ?rs = "[(0, 0), (60, 60::int)]"
  have f: "map_of (store ?lim) ''a'' = None"
    by (simp add: new_RateLimiter_def startCleanup_def)
  have L: "limit_cfg (config ?lim) = 2" and W: "windowMs (config ?lim) = 100"
    by (simp_all add: new_RateLimiter_def startCleanup_def spread_defaults_def testStrict_def
        empty_config_def)
  have z: "limit_cfg (config limiter_zero) \<le> 0"
    by (simp add: limiter_zero_def new_RateLimiter_def startCleanup_def spread_defaults_def
        empty_config_def)
  have s: "sorted (map snd ?tr)" by simp
  have sub: "\<forall>x \<in> set (readings (?rs @ [(65, 65)])). \<forall>y \<in> set (readings (?rs @ [(65, 65)])).
                y - x < windowMs (config ?lim)"
    by (simp add: W readings_def)
  have l2: "limit_cfg (config ?lim) = int (length ?rs)" by (simp add: L)
  note inst = sliding_window_admission [OF f, of ?tr "(200, 200)" ?rs "(65, 65)" limiter_zero 7 7 "''a''"]
  from inst s have 1: "verdicts (hits_on ''a'' ?tr) ?lim =
       Inr [Some (False, 1), Some (False, 0), Some (True, 0), Some (False, 0), Some (True, 0)]"
    by (simp add: L W Let_def)
  from inst l2 sub have 2: "decisions (hits_on ''a'' (?rs @ [(65, 65)])) ?lim =
              Inr (replicate (length ?rs) (Some False) @ [Some True])"
    and 3: "decisions (hits_on ''a'' (?rs @ [(65, 65), (125, 125)])) ?lim =
                      Inr (replicate (length ?rs) (Some False) @ [Some True, Some False])"
    by (simp_all add: W)
  from inst z have 4: "\<exists>i l. hit 7 7 ''a'' limiter_zero = Inr (i, l) \<and> isLimited i"
    by blast
  have s': "sorted (map snd (?tr @ [(200, 200::int)]))" by simp
  from inst s' have 5: "decisions (hits_on ''a'' (?tr @ [(200, 200)])) ?lim =
       Inr [Some False, Some False, Some True, Some False, Some True, Some False]"
    by (simp add: L W Let_def)
  from f s 1 2 3 z 4 s' 5 show ?thesis by simp
qed

text \<open>
  C1 as stated fails for the limit 0: no timestamp is ever recorded, and every \<open>hit\<close> is
  limited, also the one made a whole window after the first.
\<close>

theorem sliding_window_limit_zero_counterexample:
  "outcomes [Hit ''a'' 0 0, Hit ''a'' 100 100] limiter_zero =
     Inr [Some \<lparr>limit = 0, remaining = 0, resetAt = 100, isLimited = True\<rparr>,
          Some \<lparr>limit = 0, remaining = 0, resetAt = 200, isLimited = True\<rparr>]"
  by (simp add: outcomes_def hit_eq Let_def info_of_def in_window_def timestamps_of_def
      limiter_zero_def new_RateLimiter_def startCleanup_def spread_defaults_def empty_config_def)

text \<open>
  C2: for every key and every state of the limiter, \<open>hit\<close> first evaluates \<open>check\<close>. If the
  result is not limited, \<open>hit\<close> appends its clock reading to the key's timestamps and returns
  the result of \<open>check\<close> with \<open>remaining\<close> decremented by one, floored at 0; it never fails
  on the record it dereferences. If the result is limited, \<open>hit\<close> returns it and the state
  \<open>check\<close> left; in a state within the limit the key's timestamps are then the same as
  before the call.
\<close>

theorem hit_calls_check:
  assumes "check cnow key lim = (info, lim1)"
  shows "(\<not> isLimited info \<longrightarrow>
            (\<exists>lim2. hit now cnow key lim = Inr (info\<lparr>remaining := max 0 (remaining info - 1)\<rparr>, lim2)
               \<and> timestamps_of (store lim2) key = timestamps_of (store lim1) key @ [now]
               \<and> (\<forall>k. k \<noteq> key \<longrightarrow> map_of (store lim2) k = map_of (store lim1) k)))
       \<and> (isLimited info \<longrightarrow>
            hit now cnow key lim = Inr (info, lim1)
            \<and> (within_limit lim \<longrightarrow>
                  timestamps_of (store lim1) key = timestamps_of (store lim) key))"
proof -
  let ?xs = "in_window (config lim) cnow (timestamps_of (store lim) key)"
  from assms have info: "info = info_of (config lim) cnow ?xs"
    and lim1: "lim1 = lim\<lparr>store := AList.update key \<lparr>timestamps = ?xs, lastAccess = cnow\<rparr> (store lim)\<rparr>"
    by (simp_all add: check_eq)
  have admitted: "\<exists>lim2. hit now cnow key lim = Inr (info\<lparr>remaining := max 0 (remaining info - 1)\<rparr>, lim2)
               \<and> timestamps_of (store lim2) key = timestamps_of (store lim1) key @ [now]
               \<and> (\<forall>k. k \<noteq> key \<longrightarrow> map_of (store lim2) k = map_of (store lim1) k)"
    if "\<not> isLimited info"
    using that by (simp add: hit_eq Let_def info lim1 timestamps_of_update update_conv')
  have rejected: "hit now cnow key lim = Inr (info, lim1)" if "isLimited info"
    using that by (simp add: hit_eq Let_def info lim1)
  have unchanged: "timestamps_of (store lim1) key = timestamps_of (store lim) key"
    if l: "isLimited info" and w: "within_limit lim"
  proof -
    from l have "limit_cfg (config lim) \<le> int (length ?xs)"
      by (simp add: info info_of_def)
    moreover have "int (length (timestamps_of (store lim) key)) \<le> max 0 (limit_cfg (config lim))"
      using w by (rule timestamps_of_within)
    moreover have "length ?xs \<le> length (timestamps_of (store lim) key)"
      by (rule length_in_window)
    ultimately have "length ?xs = length (timestamps_of (store lim) key)"
      by linarith
    then have "?xs = timestamps_of (store lim) key"
      unfolding in_window_def by (metis filter_True length_filter_less linorder_not_less order_refl)
    then show ?thesis by (simp add: lim1 timestamps_of_update)
  qed
  from admitted rejected unchanged show ?thesis by blast
qed

theorem hit_calls_check_witness:
  "within_limit limiter_at_limit
   \<and> isLimited (fst (check 30 ''a'' limiter_at_limit))
   \<and> hit 30 30 ''a'' limiter_at_limit = Inr (check 30 ''a'' limiter_at_limit)
   \<and> timestamps_of (store (snd (check 30 ''a'' limiter_at_limit))) ''a'' = [10, 20]
   \<and> \<not> isLimited (fst (check 130 ''a'' limiter_at_limit))
   \<and> (\<exists>lim2. hit 125 130 ''a'' limiter_at_limit =
                Inr ((fst (check 130 ''a'' limiter_at_limit))\<lparr>remaining := 1\<rparr>, lim2)
             \<and> timestamps_of (store lim2) ''a'' = [125])"
proof -
  have w: "within_limit limiter_at_limit"
    by (simp add: within_limit_def limiter_at_limit_def new_RateLimiter_def startCleanup_def
        spread_defaults_def testStrict_def empty_config_def)
  have l: "isLimited (fst (check 30 ''a'' limiter_at_limit))"
    by (simp add: check_eq info_of_def in_window_def timestamps_of_def limiter_at_limit_def
        new_RateLimiter_def startCleanup_def spread_defaults_def testStrict_def empty_config_def)
  have n: "\<not> isLimited (fst (check 130 ''a'' limiter_at_limit))"
    by (simp add: check_eq info_of_def in_window_def timestamps_of_def limiter_at_limit_def
        new_RateLimiter_def startCleanup_def spread_defaults_def testStrict_def empty_config_def)
  have r: "remaining (fst (check 130 ''a'' limiter_at_limit)) = 2"
    by (simp add: check_eq info_of_def in_window_def timestamps_of_def limiter_at_limit_def
        new_RateLimiter_def startCleanup_def spread_defaults_def testStrict_def empty_config_def)
  have t0: "timestamps_of (store limiter_at_limit) ''a'' = [10, 20]"
    by (simp add: timestamps_of_def limiter_at_limit_def)
  have t1: "timestamps_of (store (snd (check 130 ''a'' limiter_at_limit))) ''a'' = []"
    by (simp add: check_eq info_of_def in_window_def timestamps_of_def limiter_at_limit_def
        new_RateLimiter_def startCleanup_def spread_defaults_def testStrict_def empty_config_def update_conv')
  from hit_calls_check [OF prod.collapse [symmetric], of 30 "''a''" limiter_at_limit 30]
    hit_calls_check [OF prod.collapse [symmetric], of 130 "''a''" limiter_at_limit 125]
    w l n r t0 t1
  show ?thesis by auto
qed

text \<open>
  C3 (amended): \<open>check\<close>, and \<open>getInfo\<close>, which is the same function, adds no timestamp
  and does not count as a hit: the key keeps exactly those of its timestamps that lie inside
  the window, every other key's record, the configuration and the timer are untouched, and
  no later \<open>check\<close> or \<open>hit\<close> returns a different info. The call does change the store
  otherwise: it sets the key's \<open>lastAccess\<close> to the current time and creates the record of
  a never-seen key, so that \<open>size\<close> grows by one.
\<close>

theorem check_prunes_only:
  "getInfo now key lim = check now key lim
   \<and> timestamps_of (store (snd (check now key lim))) key =
       filter (\<lambda>ts. ts > now - windowMs (config lim)) (timestamps_of (store lim) key)
   \<and> (\<forall>k. k \<noteq> key \<longrightarrow> map_of (store (snd (check now key lim))) k = map_of (store lim) k)
   \<and> config (snd (check now key lim)) = config lim
   \<and> cleanupInterval (snd (check now key lim)) = cleanupInterval lim
   \<and> (\<forall>t k. now \<le> t \<longrightarrow>
         fst (check t k (snd (check now key lim))) = fst (check t k lim)
         \<and> (\<forall>a. map_sum id fst (hit a t k (snd (check now key lim))) = map_sum id fst (hit a t k lim)))
   \<and> map_option lastAccess (map_of (store (snd (check now key lim))) key) = Some now
   \<and> size_of (snd (check now key lim)) =
       (if map_of (store lim) key = None then size_of lim + 1 else size_of lim)"
proof -
  have "cleanupInterval (snd (check now key lim)) = cleanupInterval lim"
    by (simp add: check_eq)
  moreover have "timestamps_of (store (snd (check now key lim))) key =
       filter (\<lambda>ts. ts > now - windowMs (config lim)) (timestamps_of (store lim) key)"
    by (simp add: timestamps_of_check in_window_def)
  moreover have "\<forall>k. k \<noteq> key \<longrightarrow> map_of (store (snd (check now key lim))) k = map_of (store lim) k"
    by (simp add: check_eq update_conv')
  moreover have "map_option lastAccess (map_of (store (snd (check now key lim))) key) = Some now"
    by (simp add: check_eq update_conv')
  moreover have "size_of (snd (check now key lim)) =
       (if map_of (store lim) key = None then size_of lim + 1 else size_of lim)"
    by (simp add: check_eq size_of_def length_update)
  moreover have "\<forall>t k. now \<le> t \<longrightarrow>
         fst (check t k (snd (check now key lim))) = fst (check t k lim)
         \<and> (\<forall>a. map_sum id fst (hit a t k (snd (check now key lim))) = map_sum id fst (hit a t k lim))"
    by (simp add: hit_fst info_after_check)
  ultimately show ?thesis
    by (simp add: getInfo_def)
qed

theorem check_prunes_only_witness:
  "timestamps_of (store (snd (check 115 ''a'' limiter_at_limit))) ''a'' = [20]
   \<and> map_of (store (snd (check 115 ''a'' limiter_at_limit))) ''b'' = None
   \<and> fst (check 120 ''a'' (snd (check 115 ''a'' limiter_at_limit))) = fst (check 120 ''a'' limiter_at_limit)
   \<and> size_of (snd (check 115 ''b'' limiter_at_limit)) = 2"
proof -
  have a: "timestamps_of (store limiter_at_limit) ''a'' = [10, 20]"
    "windowMs (config limiter_at_limit) = 100" "map_of (store limiter_at_limit) ''b'' = None"
    "size_of limiter_at_limit = 1"
    by (simp_all add: timestamps_of_def limiter_at_limit_def size_of_def new_RateLimiter_def
        startCleanup_def spread_defaults_def testStrict_def empty_config_def)
  from check_prunes_only [of 115 "''a''" limiter_at_limit]
    check_prunes_only [of 115 "''b''" limiter_at_limit] a
  show ?thesis by simp
qed

text \<open>
  C3 as stated fails on a never-seen key: \<open>getInfo\<close> stores a record for it, and \<open>size\<close>
  shows the difference.
\<close>

theorem getInfo_creates_record_counterexample:
  "size_of (new_RateLimiter testStrict) = 0
   \<and> size_of (snd (getInfo 5 ''a'' (new_RateLimiter testStrict))) = 1
   \<and> store (snd (getInfo 5 ''a'' (new_RateLimiter testStrict))) =
       [(''a'', \<lparr>timestamps = [], lastAccess = 5\<rparr>)]"
  by (simp add: getInfo_def check_eq size_of_def new_RateLimiter_def startCleanup_def
      timestamps_of_def in_window_def)

text \<open>
  C5: \<open>resetAt\<close> is to be the oldest surviving timestamp plus the window. The code tests
  the oldest timestamp for truthiness, so a surviving timestamp \<open>0\<close> counts as none: after a
  \<open>hit\<close> at clock reading 0 with a window of 100, \<open>check\<close> at 50 keeps the timestamp
  (\<open>remaining\<close> is 1) and returns \<open>resetAt = 150\<close>, where the oldest surviving timestamp
  leaves the window at 100.
\<close>

theorem resetAt_ignores_zero_timestamp:
  "run_calls [Hit ''a'' 0 0, Check ''a'' 50] (new_RateLimiter testStrict) =
     Inr ([Some \<lparr>limit = 2, remaining = 1, resetAt = 100, isLimited = False\<rparr>,
           Some \<lparr>limit = 2, remaining = 1, resetAt = 150, isLimited = False\<rparr>],
          (new_RateLimiter testStrict)
            \<lparr>store := [(''a'', \<lparr>timestamps = [0], lastAccess = 50\<rparr>)]\<rparr>)"
  by (simp add: hit_eq check_eq Let_def info_of_def in_window_def timestamps_of_def
      new_RateLimiter_def startCleanup_def spread_defaults_def testStrict_def empty_config_def)

text \<open>
  C6: keys are independent. Every sequence of \<open>check\<close>, \<open>getInfo\<close>, \<open>hit\<close> and \<open>reset\<close>
  calls on a key \<open>A\<close> runs to its end and leaves the record of every other key \<open>B\<close> as it
  was; the info that \<open>check\<close> or \<open>hit\<close> then returns for \<open>B\<close>, its remaining count
  included, is the one it would have returned had the calls on \<open>A\<close> not happened.
\<close>

theorem keys_independent:
  assumes "list_all (\<lambda>c. call_key c = A) cs" and "B \<noteq> A"
  shows "\<exists>infos lim'. run_calls cs lim = Inr (infos, lim')
           \<and> map_of (store lim') B = map_of (store lim) B
           \<and> (\<forall>t. fst (check t B lim') = fst (check t B lim))
           \<and> (\<forall>a t. map_sum id fst (hit a t B lim') = map_sum id fst (hit a t B lim))"
proof -
  obtain infos lim' where run: "run_calls cs lim = Inr (infos, lim')"
    using run_calls_total by blast
  from assms have "list_all (\<lambda>c. call_key c \<noteq> B) cs"
    by (auto simp: list_all_iff)
  from run_calls_other_key [OF run this]
  have m: "map_of (store lim') B = map_of (store lim) B" and c: "config lim' = config lim"
    by simp_all
  have "fst (check t B lim') = fst (check t B lim)" for t
    using m c by (rule check_fst_cong)
  then show ?thesis
    using run m by (simp add: hit_fst)
qed

theorem keys_independent_witness:
  "list_all (\<lambda>c. call_key c = ''a'') [Hit ''a'' 0 0, Hit ''a'' 1 1, Hit ''a'' 2 2, Check ''a'' 3, Reset ''a'']
   \<and> ''b'' \<noteq> ''a''
   \<and> (\<exists>infos lim'.
         run_calls [Hit ''a'' 0 0, Hit ''a'' 1 1, Hit ''a'' 2 2, Check ''a'' 3, Reset ''a'']
           (new_RateLimiter testStrict) = Inr (infos, lim')
         \<and> map_sum id fst (hit 4 4 ''b'' lim') =
             Inr \<lparr>limit = 2, remaining = 1, resetAt = 104, isLimited = False\<rparr>)"
proof -
  have k: "list_all (\<lambda>c. call_key c = ''a'') [Hit ''a'' 0 0, Hit ''a'' 1 1, Hit ''a'' 2 2, Check ''a'' 3, Reset ''a'']"
    by simp
  have n: "''b'' \<noteq> ''a''" by simp
  have h: "map_sum id fst (hit 4 4 ''b'' (new_RateLimiter testStrict)) =
             Inr \<lparr>limit = 2, remaining = 1, resetAt = 104, isLimited = False\<rparr>"
    by (simp add: hit_eq Let_def info_of_def in_window_def timestamps_of_def
      new_RateLimiter_def startCleanup_def spread_defaults_def testStrict_def empty_config_def)
  from keys_independent [OF k n, of "new_RateLimiter testStrict"] h k n
  show ?thesis by auto
qed

text \<open>
  C7: the constructor registers the sweep with a fixed period of 60 000 ms, and no call made
  for a request (\<open>check\<close>, \<open>getInfo\<close>, \<open>hit\<close>, \<open>reset\<close>) changes that timer. When the sweep
  runs at \<open>now\<close> on a store with one entry per key, it evicts exactly the records whose
  \<open>lastAccess\<close> is before \<open>now - 2 * windowMs\<close>: the others stay as they are and in
  their order, and an evicted key is in the state of a key without record, so that the next
  \<open>check\<close> reports the full allowance.
\<close>

theorem cleanup_evicts_idle:
  assumes "keys_distinct lim"
  shows "store (cleanup now lim) =
           filter (\<lambda>(k, r). \<not> lastAccess r < now - 2 * windowMs (config lim)) (store lim)
       \<and> map_of (store (cleanup now lim)) key =
           (case map_of (store lim) key of
              None \<Rightarrow> None
            | Some r \<Rightarrow> if lastAccess r < now - 2 * windowMs (config lim) then None else Some r)
       \<and> (map_of (store (cleanup now lim)) key = None \<longrightarrow>
            (\<forall>t. remaining (fst (check t key (cleanup now lim))) = max 0 (limit_cfg (config lim))))
       \<and> config (cleanup now lim) = config lim
       \<and> cleanupInterval (cleanup now lim) = cleanupInterval lim
       \<and> cleanupInterval (new_RateLimiter cfg) = Some 60000
       \<and> (\<forall>cs. \<exists>infos lim'. run_calls cs lim = Inr (infos, lim')
                   \<and> cleanupInterval lim' = cleanupInterval lim)"
proof -
  let ?P = "\<lambda>(k, r). \<not> now - lastAccess r > windowMs (config lim) * 2"
  let ?Q = "\<lambda>(k, r). \<not> lastAccess r < now - 2 * windowMs (config lim)"
  have PQ: "?P = ?Q" by (auto simp: fun_eq_iff)
  have c: "cleanup now lim = lim\<lparr>store := filter ?Q (store lim)\<rparr>"
    using cleanup_eq [OF assms, of now] unfolding PQ .
  have d: "distinct (map fst (store lim))"
    using assms by (simp add: keys_distinct_def)
  have 1: "store (cleanup now lim) = filter ?Q (store lim)"
    by (simp add: c)
  have 2: "map_of (store (cleanup now lim)) key =
           (case map_of (store lim) key of
              None \<Rightarrow> None
            | Some r \<Rightarrow> if lastAccess r < now - 2 * windowMs (config lim) then None else Some r)"
    unfolding 1 map_of_filter_distinct [OF d] by (simp split: option.splits)
  have 3: "remaining (fst (check t key (cleanup now lim))) = max 0 (limit_cfg (config lim))"
    if "map_of (store (cleanup now lim)) key = None" for t
    using that by (simp add: check_eq timestamps_of_def info_of_def in_window_def c)
  have 4: "cleanupInterval (new_RateLimiter cfg) = Some 60000"
    by (simp add: new_RateLimiter_def startCleanup_def)
  have 5: "\<exists>infos lim'. run_calls cs lim = Inr (infos, lim') \<and> cleanupInterval lim' = cleanupInterval lim"
    for cs
    using run_calls_total [of cs lim] run_calls_frame [of cs lim] by blast
  from 1 2 3 4 5 show ?thesis by (simp add: c)
qed

theorem cleanup_evicts_idle_witness:
  "keys_distinct limiter_three_keys
   \<and> store (cleanup 250 limiter_three_keys) =
       [(''b'', \<lparr>timestamps = [40, 50], lastAccess = 50\<rparr>),
        (''c'', \<lparr>timestamps = [150], lastAccess = 150\<rparr>)]
   \<and> map_of (store (cleanup 250 limiter_three_keys)) ''a'' = None
   \<and> remaining (fst (check 260 ''a'' (cleanup 250 limiter_three_keys))) = 2"
proof -
  have k: "keys_distinct limiter_three_keys"
    by (simp add: keys_distinct_def limiter_three_keys_def)
  have s: "store limiter_three_keys =
       [(''a'', \<lparr>timestamps = [0], lastAccess = 0\<rparr>),
        (''b'', \<lparr>timestamps = [40, 50], lastAccess = 50\<rparr>),
        (''c'', \<lparr>timestamps = [150], lastAccess = 150\<rparr>)]"
    and c: "windowMs (config limiter_three_keys) = 100" "limit_cfg (config limiter_three_keys) = 2"
    by (simp_all add: limiter_three_keys_def new_RateLimiter_def startCleanup_def
        spread_defaults_def testStrict_def empty_config_def)
  from cleanup_evicts_idle [OF k, of 250 "''a''"] k show ?thesis
    by (simp add: s c)
qed

text \<open>
  C8: selecting a preset is passing its literal values. For each of the six names,
  \<open>createRateLimitFromPreset\<close> with any overrides builds the very middleware that
  \<open>createRateLimitMiddleware\<close> builds from the literal limit and window with the same
  overrides spread over them, hence the same outcomes (decisions, headers, bodies) on every
  sequence of requests; in both, a limit or window given in the overrides takes precedence.
\<close>

theorem preset_is_literal:
  "createRateLimitFromPreset p overrides =
     createRateLimitMiddleware
       (spread (literal_config (fst (preset_literal p)) (snd (preset_literal p))) overrides)
   \<and> createRateLimitFromPreset p empty_config =
       createRateLimitMiddleware (literal_config (fst (preset_literal p)) (snd (preset_literal p)))
   \<and> serve reqs (createRateLimitFromPreset p overrides) =
       serve reqs (createRateLimitMiddleware
         (spread (literal_config (fst (preset_literal p)) (snd (preset_literal p))) overrides))
   \<and> limit_cfg (config (limiter (createRateLimitFromPreset p overrides))) =
       (case limit_opt overrides of Some l \<Rightarrow> l | None \<Rightarrow> fst (preset_literal p))
   \<and> windowMs (config (limiter (createRateLimitFromPreset p overrides))) =
       (case windowMs_opt overrides of Some w \<Rightarrow> w | None \<Rightarrow> snd (preset_literal p))"
proof -
  have lit: "RATE_LIMIT_PRESETS p = literal_config (fst (preset_literal p)) (snd (preset_literal p))"
    by (cases p) (simp_all add: literal_config_def)
  have l: "limit_cfg (config (limiter (createRateLimitFromPreset p overrides))) =
       (case limit_opt overrides of Some l \<Rightarrow> l | None \<Rightarrow> fst (preset_literal p))"
    by (simp add: createRateLimitFromPreset_def createRateLimitMiddleware_def new_RateLimiter_def
        startCleanup_def spread_defaults_def spread_def lit literal_config_def empty_config_def
        split: option.splits)
  have w: "windowMs (config (limiter (createRateLimitFromPreset p overrides))) =
       (case windowMs_opt overrides of Some w \<Rightarrow> w | None \<Rightarrow> snd (preset_literal p))"
    by (simp add: createRateLimitFromPreset_def createRateLimitMiddleware_def new_RateLimiter_def
        startCleanup_def spread_defaults_def spread_def lit literal_config_def empty_config_def
        split: option.splits)
  show ?thesis
    using l w by (simp add: createRateLimitFromPreset_def lit)
qed

theorem preset_is_literal_witness:
  "serve [(at_time 0, test_request ''/login'', empty_response),
          (at_time 1, test_request ''/login'', empty_response)]
         (createRateLimitFromPreset Auth (empty_config\<lparr>limit_opt := Some 1\<rparr>)) =
   serve [(at_time 0, test_request ''/login'', empty_response),
          (at_time 1, test_request ''/login'', empty_response)]
         (createRateLimitMiddleware (spread (literal_config 10 60000) (empty_config\<lparr>limit_opt := Some 1\<rparr>)))
   \<and> limit_cfg (config (limiter (createRateLimitFromPreset Auth (empty_config\<lparr>limit_opt := Some 1\<rparr>)))) = 1
   \<and> windowMs (config (limiter (createRateLimitFromPreset Auth (empty_config\<lparr>limit_opt := Some 1\<rparr>)))) = 60000"
proof -
  let ?ov = "empty_config\<lparr>limit_opt := Some 1\<rparr>"
  have ov: "limit_opt ?ov = Some 1" "windowMs_opt ?ov = None"
    by (simp_all add: empty_config_def)
  have lit: "fst (preset_literal Auth) = 10" "snd (preset_literal Auth) = 60000"
    by simp_all
  note inst = preset_is_literal [of Auth ?ov
      "[(at_time 0, test_request ''/login'', empty_response),
        (at_time 1, test_request ''/login'', empty_response)]"]
  from inst [unfolded lit ov option.case] show ?thesis
    by blast
qed

text \<open>
  C9 (amended): for every request that the skip predicate does not exempt, with headers
  enabled, the middleware sets \<open>X-RateLimit-Limit\<close>, \<open>X-RateLimit-Remaining\<close> and
  \<open>X-RateLimit-Reset\<close> (the reset instant in seconds, rounded up) on the response. When
  the request is rejected it also sets \<open>Retry-After\<close> in seconds, does not call \<open>next\<close>,
  and either hands this response to the custom handler or, without one, answers with
  status 429 and the body \<open>{error: RATE_LIMIT_EXCEEDED, message, retryAfter}\<close>. When the
  request is admitted it calls \<open>next\<close> and leaves \<open>Retry-After\<close>, the status and the body
  as they were.
\<close>

theorem middleware_sets_headers:
  assumes "headers (mergedConfig mw)"
    and "\<not> (case skip_opt (user_config mw) of Some f \<Rightarrow> f req | None \<Rightarrow> False)"
  shows "\<exists>info lim' out res'.
           hit (hit_now env) (check_now env) (keyGenerator (mergedConfig mw) req) (limiter mw) =
             Inr (info, lim')
         \<and> middleware env req res mw = Inr (out, mw\<lparr>limiter := lim'\<rparr>)
         \<and> map_of (res_headers res') ''X-RateLimit-Limit'' = Some (HNum (limit info))
         \<and> map_of (res_headers res') ''X-RateLimit-Remaining'' = Some (HNum (remaining info))
         \<and> map_of (res_headers res') ''X-RateLimit-Reset'' = Some (HNum (ceil_seconds (resetAt info)))
         \<and> statusCode res' = statusCode res \<and> body res' = body res
         \<and> (isLimited info \<longrightarrow>
               map_of (res_headers res') ''Retry-After'' =
                 Some (HNum (ceil_seconds (resetAt info - retry_now env)))
               \<and> \<not> next_called out
               \<and> out_res out =
                   (case onLimitReached_opt (user_config mw) of
                      Some handler \<Rightarrow> handler req res' info
                    | None \<Rightarrow>
                        res'\<lparr>statusCode := 429,
                             body := Some \<lparr> error = ''RATE_LIMIT_EXCEEDED'',
                                           body_message = message (mergedConfig mw),
                                           retryAfter = ceil_seconds (resetAt info - retry_now env) \<rparr>\<rparr>))
         \<and> (\<not> isLimited info \<longrightarrow>
               map_of (res_headers res') ''Retry-After'' = map_of (res_headers res) ''Retry-After''
               \<and> next_called out
               \<and> out_res out = res')"
proof -
  let ?key = "keyGenerator (mergedConfig mw) req"
  obtain info lim' where h: "hit (hit_now env) (check_now env) ?key (limiter mw) = Inr (info, lim')"
    using hit_total by blast
  let ?res1 = "setHeader ''X-RateLimit-Reset'' (HNum (ceil_seconds (resetAt info)))
                 (setHeader ''X-RateLimit-Remaining'' (HNum (remaining info))
                   (setHeader ''X-RateLimit-Limit'' (HNum (limit info)) res))"
  let ?res2 = "setHeader ''Retry-After'' (HNum (ceil_seconds (resetAt info - retry_now env))) ?res1"
  show ?thesis
  proof (cases "isLimited info")
    case True
    let ?final = "case onLimitReached_opt (user_config mw) of
                      Some handler \<Rightarrow> handler req ?res2 info
                    | None \<Rightarrow>
                        ?res2\<lparr>statusCode := 429,
                             body := Some \<lparr> error = ''RATE_LIMIT_EXCEEDED'',
                                           body_message = message (mergedConfig mw),
                                           retryAfter = ceil_seconds (resetAt info - retry_now env) \<rparr>\<rparr>"
    have "\<exists>out. middleware env req res mw = Inr (out, mw\<lparr>limiter := lim'\<rparr>)
             \<and> \<not> next_called out \<and> out_res out = ?final"
      using assms True h by (simp add: middleware_def Let_def split: option.splits)
    then obtain out where m: "middleware env req res mw = Inr (out, mw\<lparr>limiter := lim'\<rparr>)"
      and o: "\<not> next_called out" "out_res out = ?final"
      by blast
    have hd: "map_of (res_headers ?res2) ''X-RateLimit-Limit'' = Some (HNum (limit info))"
      "map_of (res_headers ?res2) ''X-RateLimit-Remaining'' = Some (HNum (remaining info))"
      "map_of (res_headers ?res2) ''X-RateLimit-Reset'' = Some (HNum (ceil_seconds (resetAt info)))"
      "map_of (res_headers ?res2) ''Retry-After'' =
         Some (HNum (ceil_seconds (resetAt info - retry_now env)))"
      "statusCode ?res2 = statusCode res" "body ?res2 = body res"
      by (simp_all add: map_of_setHeader)
    from h m o hd True show ?thesis by blast
  next
    case False
    have "\<exists>out. middleware env req res mw = Inr (out, mw\<lparr>limiter := lim'\<rparr>)
             \<and> next_called out \<and> out_res out = ?res1"
      using assms False h by (simp add: middleware_def Let_def)
    then obtain out where m: "middleware env req res mw = Inr (out, mw\<lparr>limiter := lim'\<rparr>)"
      and o: "next_called out" "out_res out = ?res1"
      by blast
    have hd: "map_of (res_headers ?res1) ''X-RateLimit-Limit'' = Some (HNum (limit info))"
      "map_of (res_headers ?res1) ''X-RateLimit-Remaining'' = Some (HNum (remaining info))"
      "map_of (res_headers ?res1) ''X-RateLimit-Reset'' = Some (HNum (ceil_seconds (resetAt info)))"
      "map_of (res_headers ?res1) ''Retry-After'' = map_of (res_headers res) ''Retry-After''"
      "statusCode ?res1 = statusCode res" "body ?res1 = body res"
      by (simp_all add: map_of_setHeader)
    from h m o hd False show ?thesis by blast
  qed
qed

theorem middleware_sets_headers_witness:
  "headers (mergedConfig middleware_used)
   \<and> \<not> (case skip_opt (user_config middleware_used) of
           Some f \<Rightarrow> f (test_request ''/api/test'') | None \<Rightarrow> False)
   \<and> (\<exists>out mw'. middleware (at_time 10) (test_request ''/api/test'') empty_response middleware_used =
                    Inr (out, mw')
         \<and> \<not> next_called out
         \<and> statusCode (out_res out) = 429
         \<and> map_option retryAfter (body (out_res out)) = Some 1
         \<and> map_of (res_headers (out_res out)) ''Retry-After'' = Some (HNum 1)
         \<and> map_of (res_headers (out_res out)) ''X-RateLimit-Remaining'' = Some (HNum 0))"
proof -
  have c: "mergedConfig middleware_used = spread_defaults DEFAULT_RATE_LIMIT_CONFIG testSingle"
    "user_config middleware_used = testSingle"
    "limiter middleware_used = (new_RateLimiter testSingle)
          \<lparr>store := [(''192.168.1.100'', \<lparr>timestamps = [5], lastAccess = 5\<rparr>)]\<rparr>"
    by (simp_all add: middleware_used_def createRateLimitMiddleware_def)
  have hd: "headers (mergedConfig middleware_used)"
    by (simp add: c spread_defaults_def DEFAULT_RATE_LIMIT_CONFIG_def testSingle_def empty_config_def)
  have sk: "\<not> (case skip_opt (user_config middleware_used) of
           Some f \<Rightarrow> f (test_request ''/api/test'') | None \<Rightarrow> False)"
    by (simp add: c testSingle_def empty_config_def)
  have nh: "onLimitReached_opt (user_config middleware_used) = None"
    by (simp add: c testSingle_def empty_config_def)
  have key: "keyGenerator (mergedConfig middleware_used) (test_request ''/api/test'') = ''192.168.1.100''"
    by (simp add: c spread_defaults_def DEFAULT_RATE_LIMIT_CONFIG_def testSingle_def empty_config_def
        default_keyGenerator_def or_else_def test_request_def)
  have "\<exists>l. hit 10 10 ''192.168.1.100'' (limiter middleware_used) =
          Inr (\<lparr>limit = 1, remaining = 0, resetAt = 105, isLimited = True\<rparr>, l)"
    by (simp add: c hit_eq Let_def info_of_def in_window_def timestamps_of_def new_RateLimiter_def
        startCleanup_def spread_defaults_def testSingle_def empty_config_def)
  then obtain l where h: "hit 10 10 ''192.168.1.100'' (limiter middleware_used) =
          Inr (\<lparr>limit = 1, remaining = 0, resetAt = 105, isLimited = True\<rparr>, l)"
    by blast
  from middleware_sets_headers [OF hd sk, of "at_time 10" empty_response]
  obtain info lim' out res' where
    h': "hit (hit_now (at_time 10)) (check_now (at_time 10))
           (keyGenerator (mergedConfig middleware_used) (test_request ''/api/test''))
           (limiter middleware_used) = Inr (info, lim')"
    and m: "middleware (at_time 10) (test_request ''/api/test'') empty_response middleware_used =
              Inr (out, middleware_used\<lparr>limiter := lim'\<rparr>)"
    and r: "map_of (res_headers res') ''X-RateLimit-Remaining'' = Some (HNum (remaining info))"
    and l: "isLimited info \<longrightarrow>
               map_of (res_headers res') ''Retry-After'' =
                 Some (HNum (ceil_seconds (resetAt info - retry_now (at_time 10))))
               \<and> \<not> next_called out
               \<and> out_res out =
                   (case onLimitReached_opt (user_config middleware_used) of
                      Some handler \<Rightarrow> handler (test_request ''/api/test'') res' info
                    | None \<Rightarrow>
                        res'\<lparr>statusCode := 429,
                             body := Some \<lparr> error = ''RATE_LIMIT_EXCEEDED'',
                                           body_message = message (mergedConfig middleware_used),
                                           retryAfter = ceil_seconds (resetAt info - retry_now (at_time 10)) \<rparr>\<rparr>)"
    by blast
  from h h' have info: "info = \<lparr>limit = 1, remaining = 0, resetAt = 105, isLimited = True\<rparr>"
    by (simp add: key at_time_def)
  from l r have "\<not> next_called out \<and> statusCode (out_res out) = 429
         \<and> map_option retryAfter (body (out_res out)) = Some 1
         \<and> map_of (res_headers (out_res out)) ''Retry-After'' = Some (HNum 1)
         \<and> map_of (res_headers (out_res out)) ''X-RateLimit-Remaining'' = Some (HNum 0)"
    by (simp add: info nh at_time_def ceil_seconds_def)
  with m hd sk show ?thesis by blast
qed

text \<open>
  C9 as stated fails for a request that the skip predicate exempts: the middleware handles
  it by calling \<open>next\<close> at once, and the response carries no rate-limit header although
  headers are enabled.
\<close>

theorem skipped_request_counterexample:
  "headers (mergedConfig (createRateLimitMiddleware
      (testSingle\<lparr>skip_opt := Some (\<lambda>req. path req = ''/health'')\<rparr>)))
   \<and> middleware (at_time 0) (test_request ''/health'') empty_response
       (createRateLimitMiddleware (testSingle\<lparr>skip_opt := Some (\<lambda>req. path req = ''/health'')\<rparr>)) =
     Inr (\<lparr>out_res = \<lparr>statusCode = 200, res_headers = [], body = None\<rparr>,
           next_called = True, audited = []\<rparr>,
          createRateLimitMiddleware (testSingle\<lparr>skip_opt := Some (\<lambda>req. path req = ''/health'')\<rparr>))"
  by (simp add: middleware_def createRateLimitMiddleware_def spread_defaults_def
      DEFAULT_RATE_LIMIT_CONFIG_def testSingle_def empty_config_def test_request_def
      empty_response_def)

text \<open>
  C10: in a state of the limiter (one entry per key, timestamps not after their record's
  \<open>lastAccess\<close>, no access after the sweep's clock reading \<open>now\<close>), every timestamp of a
  record whose \<open>lastAccess\<close> is before \<open>now - 2 * windowMs\<close> lies outside the window of
  every later instant. So every sequence of later \<open>check\<close>, \<open>getInfo\<close>, \<open>hit\<close> and
  \<open>reset\<close> calls, on any keys, returns the same infos after the sweep as without it.
\<close>

theorem sweep_unobservable:
  assumes "invariant now lim" and "list_all (not_before now) cs"
  shows "(\<forall>k r t. map_of (store lim) k = Some r
                  \<and> lastAccess r < now - 2 * windowMs (config lim) \<and> now \<le> t \<longrightarrow>
             filter (\<lambda>ts. ts > t - windowMs (config lim)) (timestamps r) = [])
       \<and> outcomes cs (cleanup now lim) = outcomes cs lim
       \<and> (\<exists>infos. outcomes cs lim = Inr infos)"
proof -
  from assms(1) have s: "stamps_le_access lim" and a: "accessed_by now lim"
    by (simp_all add: invariant_def)
  have 1: "filter (\<lambda>ts. ts > t - windowMs (config lim)) (timestamps r) = []"
    if m: "map_of (store lim) k = Some r" and old: "lastAccess r < now - 2 * windowMs (config lim)"
      and t: "now \<le> t" for k r t
  proof -
    from m have "(k, r) \<in> set (store lim)" by (rule map_of_SomeD)
    with s a have "list_all (\<lambda>x. x \<le> lastAccess r) (timestamps r)" "lastAccess r \<le> now"
      by (auto simp: stamps_le_access_def accessed_by_def list_all_iff)
    from expired_out_of_window [OF this old t] show ?thesis
      by (simp add: in_window_def)
  qed
  have c: "config (cleanup now lim) = config lim"
    by (simp add: cleanup_def Let_def)
  have "window_equiv (config (cleanup now lim)) now (store (cleanup now lim)) (store lim)"
    unfolding c using assms(1) by (rule window_equiv_cleanup)
  from window_equiv_run [OF this c [symmetric] assms(2)]
  have 2: "outcomes cs (cleanup now lim) = outcomes cs lim" .
  have 3: "\<exists>infos. outcomes cs lim = Inr infos"
    using run_calls_total [of cs lim] by (auto simp: outcomes_def)
  from 1 2 3 show ?thesis by blast
qed

theorem sweep_unobservable_witness:
  "invariant 250 limiter_three_keys
   \<and> list_all (not_before 250) [Hit ''a'' 260 260, Check ''c'' 270, Check ''a'' 270]
   \<and> outcomes [Hit ''a'' 260 260, Check ''c'' 270, Check ''a'' 270] (cleanup 250 limiter_three_keys) =
       Inr [Some \<lparr>limit = 2, remaining = 1, resetAt = 360, isLimited = False\<rparr>,
            Some \<lparr>limit = 2, remaining = 2, resetAt = 370, isLimited = False\<rparr>,
            Some \<lparr>limit = 2, remaining = 1, resetAt = 360, isLimited = False\<rparr>]"
proof -
  have c: "config limiter_three_keys = config (new_RateLimiter testStrict)"
    by (simp add: limiter_three_keys_def)
  have W: "windowMs (config limiter_three_keys) = 100" "limit_cfg (config limiter_three_keys) = 2"
    by (simp_all add: c new_RateLimiter_def startCleanup_def spread_defaults_def testStrict_def
        empty_config_def)
  have s: "store limiter_three_keys =
       [(''a'', \<lparr>timestamps = [0], lastAccess = 0\<rparr>),
        (''b'', \<lparr>timestamps = [40, 50], lastAccess = 50\<rparr>),
        (''c'', \<lparr>timestamps = [150], lastAccess = 150\<rparr>)]"
    by (simp add: limiter_three_keys_def)
  have i: "invariant 250 limiter_three_keys"
    by (simp add: invariant_def keys_distinct_def within_limit_def stamps_le_access_def
        accessed_by_def s W)
  have n: "list_all (not_before 250) [Hit ''a'' 260 260, Check ''c'' 270, Check ''a'' 270]"
    by (simp add: not_before_def)
  have o: "outcomes [Hit ''a'' 260 260, Check ''c'' 270, Check ''a'' 270] limiter_three_keys =
       Inr [Some \<lparr>limit = 2, remaining = 1, resetAt = 360, isLimited = False\<rparr>,
            Some \<lparr>limit = 2, remaining = 2, resetAt = 370, isLimited = False\<rparr>,
            Some \<lparr>limit = 2, remaining = 1, resetAt = 360, isLimited = False\<rparr>]"
    by (simp add: outcomes_def hit_eq check_eq Let_def info_of_def in_window_def timestamps_of_def
        update_conv' s W)
  from sweep_unobservable [OF i n] i n o show ?thesis by simp
qed

end
